theory Spec2Isabelle
  imports Main "HOL-Library.AList" "HOL-Library.Log_Nat"
begin

section \<open>Python values used by the notebooks\<close>

text \<open>
  The two functions verified here are \<^verbatim>\<open>reciprocal_rank_fusion\<close> (notebook
  \<^verbatim>\<open>B - Query Translation/2 - RAG-fusion.ipynb\<close>) and \<^verbatim>\<open>get_unique_union\<close> (notebook
  \<^verbatim>\<open>B - Query Translation/1 - Multi-query.ipynb\<close>), together with the parsing step of
  \<^verbatim>\<open>chain_generate_queries\<close> that both notebooks share.

  Exceptions are values: a Python call returns \<open>Inl e\<close> when it raises \<open>e\<close> and
  \<open>Inr v\<close> when it returns \<open>v\<close>.
\<close>

datatype py_error = ZeroDivisionError | KeyError | ValueError | NotImplementedError

subsection \<open>Float arithmetic\<close>

text \<open>
  Scores are Python floats. A float is modelled by the rational number it denotes, and
  every arithmetic operation that produces a float is followed by a rounding function
  \<open>fl\<close>, which the model takes as a parameter. Two instances matter:
  \<^item> \<open>round64\<close> below: round to nearest, ties to even, with a 53-bit significand and
    gradual underflow, which is what CPython's \<^verbatim>\<open>float\<close> addition and its division of
    an \<^verbatim>\<open>int\<close> by an \<^verbatim>\<open>int\<close> do to a result below \<open>2 powi 1024\<close>. Overflow is left
    out: a contribution \<open>1 / (rank + k)\<close> is at most \<open>1\<close> in absolute value, so a score
    reaches \<open>2 powi 1024\<close> only with more than \<open>2 powi 1024\<close> items;
  \<^item> the identity: exact arithmetic, the reading under which the formula \<open>1 / (rank + k)\<close>
    of the RRF literature is an equation between numbers.
\<close>

definition round_half_even :: "rat \<Rightarrow> int" where
  "round_half_even x =
     (if x - of_int \<lfloor>x\<rfloor> < 1 / 2 then \<lfloor>x\<rfloor>
      else if 1 / 2 < x - of_int \<lfloor>x\<rfloor> then \<lfloor>x\<rfloor> + 1
      else if even \<lfloor>x\<rfloor> then \<lfloor>x\<rfloor> else \<lfloor>x\<rfloor> + 1)"

text \<open>The binary exponent of a positive number: \<open>2 powi binade a \<le> a < 2 powi (binade a + 1)\<close>.\<close>

definition binade :: "rat \<Rightarrow> int" where
  "binade a =
     (if 1 \<le> a then int (floorlog 2 (nat \<lfloor>a\<rfloor>)) - 1
      else - int (floorlog 2 (nat (\<lceil>1 / a\<rceil> - 1))))"

text \<open>
  The exponent of the unit in the last place, up to the 52 bits of the fraction: that of
  the binade, or \<open>- 1022\<close> for the subnormal numbers below \<open>2 powi (- 1022)\<close>.
\<close>

definition quantum_exp :: "rat \<Rightarrow> int" where
  "quantum_exp a = max (binade a) (- 1022)"

definition round64 :: "rat \<Rightarrow> rat" where
  "round64 x =
     (if x = 0 then 0
      else sgn x * of_int (round_half_even (\<bar>x\<bar> * 2 powi (52 - quantum_exp \<bar>x\<bar>)))
             * 2 powi (quantum_exp \<bar>x\<bar> - 52))"

text \<open>The number of binary digits of a numeral, for evaluating \<open>floorlog 2\<close> on literals.\<close>

fun bits :: "num \<Rightarrow> nat" where
  "bits num.One = 1"
| "bits (num.Bit0 n) = Suc (bits n)"
| "bits (num.Bit1 n) = Suc (bits n)"

section \<open>Reciprocal rank fusion\<close>

text \<open>
  \<^verbatim>\<open>
  def reciprocal_rank_fusion(results: list[list], k=60):
      fused_scores = {}
      for docs in results:
          for rank, doc in enumerate(docs):
              doc_str = dumps(doc)
              if doc_str not in fused_scores:
                  fused_scores[doc_str] = 0
              fused_scores[doc_str] += 1 / (rank + k)
      reranked_results = [
          (loads(doc), score)
          for doc, score in sorted(fused_scores.items(), key=lambda x: x[1], reverse=True)
      ]
      return reranked_results
  \<close>
  \<^verbatim>\<open>dumps\<close> and \<^verbatim>\<open>loads\<close> are langchain's serialiser and its inverse; the
  repository only calls them, so they are parameters of the model. A Python \<^verbatim>\<open>dict\<close>
  keeps its keys in insertion order: it is an association list in which an assignment to
  a present key replaces the value in place and an assignment to an absent key appends,
  which is \<open>AList.update\<close>. \<open>k\<close> is a Python \<^verbatim>\<open>int\<close> (the default is \<^verbatim>\<open>60\<close>).
\<close>

type_synonym fused = "(string \<times> rat) list"

text \<open>
  The inner loop, over the pairs that \<^verbatim>\<open>enumerate(docs)\<close> yields. The augmented
  assignment reads \<^verbatim>\<open>fused_scores[doc_str]\<close> (a \<^verbatim>\<open>KeyError\<close> if absent), evaluates
  \<^verbatim>\<open>1 / (rank + k)\<close> (a \<^verbatim>\<open>ZeroDivisionError\<close> if the sum of the two ints is zero), adds
  and stores.
\<close>

fun rank_loop ::
  "(rat \<Rightarrow> rat) \<Rightarrow> ('d \<Rightarrow> string) \<Rightarrow> int \<Rightarrow> (nat \<times> 'd) list \<Rightarrow> fused \<Rightarrow> py_error + fused" where
  "rank_loop fl dumps k [] fused_scores = Inr fused_scores"
| "rank_loop fl dumps k ((rank, doc) # rest) fused_scores =
     (let doc_str = dumps doc;
          fused_scores =
            (if map_of fused_scores doc_str = None then AList.update doc_str 0 fused_scores
             else fused_scores)
      in case map_of fused_scores doc_str of
           None \<Rightarrow> Inl KeyError
         | Some old \<Rightarrow>
             if int rank + k = 0 then Inl ZeroDivisionError
             else rank_loop fl dumps k rest
                    (AList.update doc_str (fl (old + fl (1 / of_int (int rank + k))))
                       fused_scores))"

fun lists_loop ::
  "(rat \<Rightarrow> rat) \<Rightarrow> ('d \<Rightarrow> string) \<Rightarrow> int \<Rightarrow> 'd list list \<Rightarrow> fused \<Rightarrow> py_error + fused" where
  "lists_loop fl dumps k [] fused_scores = Inr fused_scores"
| "lists_loop fl dumps k (docs # rest) fused_scores =
     (case rank_loop fl dumps k (enumerate 0 docs) fused_scores of
        Inl e \<Rightarrow> Inl e
      | Inr fused_scores' \<Rightarrow> lists_loop fl dumps k rest fused_scores')"

text \<open>
  \<^verbatim>\<open>sorted(xs, key=key, reverse=True)\<close>: descending by key, and stable (Python keeps
  the original order of elements whose keys are equal, also with \<^verbatim>\<open>reverse=True\<close>).
\<close>

definition sorted_reverse :: "('a \<Rightarrow> rat) \<Rightarrow> 'a list \<Rightarrow> 'a list" where
  "sorted_reverse key xs = sort_key (\<lambda>x. - key x) xs"

definition reciprocal_rank_fusion ::
  "(rat \<Rightarrow> rat) \<Rightarrow> ('d \<Rightarrow> string) \<Rightarrow> (string \<Rightarrow> 'd) \<Rightarrow> 'd list list \<Rightarrow> int
     \<Rightarrow> py_error + ('d \<times> rat) list" where
  "reciprocal_rank_fusion fl dumps loads results k =
     (case lists_loop fl dumps k results [] of
        Inl e \<Rightarrow> Inl e
      | Inr fused_scores \<Rightarrow>
          Inr [(loads doc, score). (doc, score) \<leftarrow> sorted_reverse snd fused_scores])"

text \<open>
  \<^verbatim>\<open>loads\<close> is called on every key of the sorted dictionary, outside any
  \<^verbatim>\<open>try\<close>. \<open>reciprocal_rank_fusion\<close> above takes it as a function that returns: it is
  the function on the inputs whose serialisations load. langchain's \<^verbatim>\<open>loads\<close> raises on
  a serialisation it does not accept (\<^verbatim>\<open>NotImplementedError\<close> for a document that
  \<^verbatim>\<open>dumps\<close> could not serialise), and the comprehension then stops at the first such
  key, in the order of the ranking. \<open>reciprocal_rank_fusion_raising\<close> is the same function
  with a \<^verbatim>\<open>loads\<close> that may raise; the statements about which exceptions the function
  raises are made of this one.
\<close>

fun load_ranked ::
  "(string \<Rightarrow> py_error + 'd) \<Rightarrow> (string \<times> rat) list \<Rightarrow> py_error + ('d \<times> rat) list" where
  "load_ranked loads [] = Inr []"
| "load_ranked loads ((doc, score) # rest) =
     (case loads doc of
        Inl e \<Rightarrow> Inl e
      | Inr d \<Rightarrow>
          (case load_ranked loads rest of
             Inl e \<Rightarrow> Inl e
           | Inr reranked \<Rightarrow> Inr ((d, score) # reranked)))"

definition reciprocal_rank_fusion_raising ::
  "(rat \<Rightarrow> rat) \<Rightarrow> ('d \<Rightarrow> string) \<Rightarrow> (string \<Rightarrow> py_error + 'd) \<Rightarrow> 'd list list \<Rightarrow> int
     \<Rightarrow> py_error + ('d \<times> rat) list" where
  "reciprocal_rank_fusion_raising fl dumps loads results k =
     (case lists_loop fl dumps k results [] of
        Inl e \<Rightarrow> Inl e
      | Inr fused_scores \<Rightarrow> load_ranked loads (sorted_reverse snd fused_scores))"

section \<open>Unique union\<close>

text \<open>
  \<^verbatim>\<open>
  def get_unique_union(documents: list[list]):
      flattened_docs = [dumps(doc) for sublist in documents for doc in sublist]
      unique_docs = list(set(flattened_docs))
      return [loads(doc) for doc in unique_docs]
  \<close>
  The order in which a Python \<^verbatim>\<open>set\<close> of strings is iterated depends on the hashes of
  the strings, which change from one interpreter run to the next. The conversion
  \<^verbatim>\<open>list(set(xs))\<close> is therefore a parameter \<open>list_set\<close> of the model, of which
  \<open>set_order\<close> states all that Python guarantees: every element once, in some order.
\<close>

definition get_unique_union ::
  "('d \<Rightarrow> string) \<Rightarrow> (string \<Rightarrow> 'd) \<Rightarrow> (string list \<Rightarrow> string list) \<Rightarrow> 'd list list \<Rightarrow> 'd list" where
  "get_unique_union dumps loads list_set documents =
     (let flattened_docs = [dumps doc. sublist \<leftarrow> documents, doc \<leftarrow> sublist];
          unique_docs = list_set flattened_docs
      in [loads doc. doc \<leftarrow> unique_docs])"

definition set_order :: "(string list \<Rightarrow> string list) \<Rightarrow> bool" where
  "set_order list_set \<longleftrightarrow> (\<forall>xs. distinct (list_set xs) \<and> set (list_set xs) = set xs)"

section \<open>Query generation\<close>

text \<open>
  \<^verbatim>\<open>
  chain_generate_queries = (
      prompt_perspectives | llm | StrOutputParser() | (lambda x: x.split("\n\n"))
  )
  \<close>
  Both notebooks end the chain with the same lambda. The first three stages are the
  language model behind its prompt: \<open>llm_text\<close>, from the question to the text the model
  answers. \<^verbatim>\<open>str.split(sep)\<close> cuts at each occurrence of \<open>sep\<close>, leftmost first and
  without overlap, and raises \<^verbatim>\<open>ValueError\<close> on an empty separator.
\<close>

function split_from :: "string \<Rightarrow> string \<Rightarrow> string \<Rightarrow> string list" where
  "split_from sep cur s =
     (if sep \<noteq> [] \<and> take (length sep) s = sep
      then cur # split_from sep [] (drop (length sep) s)
      else case s of
             [] \<Rightarrow> [cur]
           | c # rest \<Rightarrow> split_from sep (cur @ [c]) rest)"
  by pat_completeness auto
termination
proof (relation "measure (\<lambda>(sep, cur, s). length s)")
  fix sep cur s :: string
  assume "sep \<noteq> [] \<and> take (length sep) s = sep"
  then have "s \<noteq> []" and "0 < length sep" by auto
  then show "((sep, [], drop (length sep) s), (sep, cur, s))
               \<in> measure (\<lambda>(sep, cur, s). length s)"
    by simp
qed simp_all

declare split_from.simps [simp del]

text \<open>\<^verbatim>\<open>sep.join(vs)\<close>, with which the pieces of a split give the text back.\<close>

definition join_with :: "string \<Rightarrow> string list \<Rightarrow> string" where
  "join_with sep vs = (case vs of [] \<Rightarrow> [] | v # ws \<Rightarrow> v @ concat (map (\<lambda>w. sep @ w) ws))"

definition str_split :: "string \<Rightarrow> string \<Rightarrow> py_error + string list" where
  "str_split sep s = (if sep = [] then Inl ValueError else Inr (split_from sep [] s))"

definition newline :: char where
  "newline = CHR 0x0A"

definition chain_generate_queries :: "(string \<Rightarrow> string) \<Rightarrow> string \<Rightarrow> py_error + string list" where
  "chain_generate_queries llm_text question = str_split [newline, newline] (llm_text question)"

section \<open>Notions of the specification\<close>

text \<open>
  The definitions of this section are not code of the repository: they are the notions in
  which the properties of the code are stated and proved.
\<close>

text \<open>The distinct elements of a list, in the order of their first occurrence.\<close>

fun first_seen :: "'a list \<Rightarrow> 'a list" where
  "first_seen [] = []"
| "first_seen (x # xs) = x # removeAll x (first_seen xs)"

text \<open>The position of the first occurrence of \<open>x\<close> in \<open>xs\<close> (\<open>length xs\<close> if there is none).\<close>

definition first_index :: "'a list \<Rightarrow> 'a \<Rightarrow> nat" where
  "first_index xs x = length (takeWhile (\<lambda>y. y \<noteq> x) xs)"

text \<open>
  The contributions \<open>1 / (rank + k)\<close> that one enumerated ranked list makes to the
  document with serialisation \<open>key\<close>: one for each position at which it occurs.
\<close>

definition contribs ::
  "(rat \<Rightarrow> rat) \<Rightarrow> ('d \<Rightarrow> string) \<Rightarrow> int \<Rightarrow> string \<Rightarrow> (nat \<times> 'd) list \<Rightarrow> rat list" where
  "contribs fl dumps k key ps =
     [fl (1 / of_int (int rank + k)). (rank, doc) \<leftarrow> ps, dumps doc = key]"

text \<open>The float sum of a list of numbers, from the left, starting from \<open>acc\<close>.\<close>

definition fsum :: "(rat \<Rightarrow> rat) \<Rightarrow> rat \<Rightarrow> rat list \<Rightarrow> rat" where
  "fsum fl acc cs = foldl (\<lambda>a c. fl (a + c)) acc cs"

text \<open>The fused score of a key: the sum of its contributions, list after list.\<close>

definition rrf_score ::
  "(rat \<Rightarrow> rat) \<Rightarrow> ('d \<Rightarrow> string) \<Rightarrow> int \<Rightarrow> 'd list list \<Rightarrow> string \<Rightarrow> rat" where
  "rrf_score fl dumps k results key =
     fsum fl 0 (concat (map (\<lambda>docs. contribs fl dumps k key (enumerate 0 docs)) results))"

text \<open>Some item of some list has a rank that cancels \<open>k\<close>.\<close>

definition zero_rank :: "int \<Rightarrow> 'd list list \<Rightarrow> bool" where
  "zero_rank k results \<longleftrightarrow> (\<exists>docs \<in> set results. \<exists>rank < length docs. int rank + k = 0)"

text \<open>
  The fused ranking as the specification describes it: the keys in the order of first
  encounter, each with its fused score, sorted by score, descending and stable.
\<close>

definition ranking ::
  "(rat \<Rightarrow> rat) \<Rightarrow> ('d \<Rightarrow> string) \<Rightarrow> int \<Rightarrow> 'd list list \<Rightarrow> (string \<times> rat) list" where
  "ranking fl dumps k results =
     sorted_reverse snd
       (map (\<lambda>key. (key, rrf_score fl dumps k results key))
          (first_seen (map dumps (concat results))))"

text \<open>\<^verbatim>\<open>dict.get(key, 0)\<close> on the association list.\<close>

definition get0 :: "fused \<Rightarrow> string \<Rightarrow> rat" where
  "get0 fs key = (case map_of fs key of None \<Rightarrow> 0 | Some v \<Rightarrow> v)"

text \<open>The string \<open>sep\<close> occurs in the string \<open>s\<close>.\<close>

definition occurs :: "string \<Rightarrow> string \<Rightarrow> bool" where
  "occurs sep s \<longleftrightarrow> (\<exists>ps ss. s = ps @ sep @ ss)"

text \<open>A query variant a retriever can use: it has a character that is not white space.\<close>

definition usable_variant :: "string \<Rightarrow> bool" where
  "usable_variant v \<longleftrightarrow> (\<exists>c \<in> set v. c \<notin> set [CHR '' '', CHR 0x09, CHR 0x0A, CHR 0x0B, CHR 0x0C, CHR 0x0D])"

section \<open>The float model\<close>

subsection \<open>Evaluation on literals\<close>

lemma floorlog_numeral: "floorlog 2 (numeral n) = bits n"
proof (induction n)
  case One
  have "floorlog 2 (Suc 0) = floorlog 2 (Suc 0 div 2) + 1"
    by (subst compute_floorlog) simp
  then show ?case by (simp add: floorlog_def)
next
  case (Bit0 n)
  have "floorlog 2 (numeral (num.Bit0 n)) = floorlog 2 (numeral (num.Bit0 n) div 2) + 1"
    by (subst compute_floorlog) simp
  also have "(numeral (num.Bit0 n) :: nat) div 2 = numeral n"
    by simp
  finally show ?case using Bit0 by simp
next
  case (Bit1 n)
  have "floorlog 2 (numeral (num.Bit1 n)) = floorlog 2 (numeral (num.Bit1 n) div 2) + 1"
    by (subst compute_floorlog) simp
  also have "(numeral (num.Bit1 n) :: nat) div 2 = numeral n"
    by simp
  finally show ?case using Bit1 by simp
qed

lemma floorlog_one: "floorlog 2 (Suc 0) = 1"
  by (simp add: floorlog_def)

lemma floor_rat_numeral_div: "\<lfloor>numeral a / numeral b :: rat\<rfloor> = numeral a div numeral b"
  using floor_divide_of_int_eq [of "numeral a" "numeral b", where ?'a = rat] by simp

lemma ceiling_rat_numeral_div:
  "\<lceil>numeral a / numeral b :: rat\<rceil> = - (- numeral a div numeral b)"
  using floor_divide_of_int_eq [of "- numeral a" "numeral b", where ?'a = rat]
  by (simp add: ceiling_def)

lemma floor_rat_one_div: "\<lfloor>1 / numeral b :: rat\<rfloor> = 1 div numeral b"
  using floor_divide_of_int_eq [of 1 "numeral b", where ?'a = rat] by simp

lemma ceiling_rat_one_div: "\<lceil>1 / numeral b :: rat\<rceil> = - (- 1 div numeral b)"
  using floor_divide_of_int_eq [of "- 1" "numeral b", where ?'a = rat]
  by (simp add: ceiling_def)

lemmas round64_eval =
  round64_def quantum_exp_def binade_def round_half_even_def floorlog_numeral floorlog_one
  floor_rat_numeral_div ceiling_rat_numeral_div floor_rat_one_div ceiling_rat_one_div

lemmas rrf_eval =
  reciprocal_rank_fusion_def sorted_reverse_def Let_def

subsection \<open>Rounding to binary64\<close>

text \<open>
  \<open>binade\<close> is the binary exponent. \<open>round64\<close> is at most half a unit in the last place
  away from its argument, is monotone on the numbers that are not negative, keeps a
  normal number within its binade, and maps to zero no number above \<open>2 powi (- 1075)\<close>,
  half the least positive float.
\<close>

lemma binade_lower:
  assumes "0 < x"
  shows "2 powi binade x \<le> x"
proof (cases "1 \<le> x")
  case True
  let ?n = "nat \<lfloor>x\<rfloor>"
  from True have n: "0 < ?n" by simp
  from floorlog_bounds [OF n, of 2] have b: "2 ^ (floorlog 2 ?n - 1) \<le> ?n" by simp
  from n have "0 < floorlog 2 ?n" by (simp add: floorlog_def)
  then have e: "binade x = int (floorlog 2 ?n - 1)"
    using True by (simp add: binade_def of_nat_diff)
  from b have "(2::rat) ^ (floorlog 2 ?n - 1) \<le> of_nat ?n"
    by (metis of_nat_le_iff of_nat_numeral of_nat_power)
  also have "\<dots> = of_int \<lfloor>x\<rfloor>" using True by simp
  also have "\<dots> \<le> x" by simp
  finally show ?thesis by (simp add: e)
next
  case False
  let ?m = "nat (\<lceil>1 / x\<rceil> - 1)"
  from False assms have "1 < 1 / x" by simp
  then have c: "2 \<le> \<lceil>1 / x\<rceil>" by (simp add: le_ceiling_iff less_eq_real_def) 
  then have m: "0 < ?m" by simp
  from floorlog_bounds [OF m, of 2] have "?m < 2 ^ floorlog 2 ?m" by simp
  then have "int ?m < 2 ^ floorlog 2 ?m"
    by (metis of_nat_less_iff of_nat_numeral of_nat_power)
  moreover from c have "0 \<le> \<lceil>1 / x\<rceil> - 1" by linarith
  then have "int ?m = \<lceil>1 / x\<rceil> - 1" by (rule nat_0_le)
  ultimately have "\<lceil>1 / x\<rceil> \<le> 2 ^ floorlog 2 ?m" by linarith
  then have "1 / x \<le> 2 ^ floorlog 2 ?m"
    by (simp add: ceiling_le_iff)
  with assms have "1 / 2 ^ floorlog 2 ?m \<le> x"
    by (simp add: field_simps)
  moreover have "binade x = - int (floorlog 2 ?m)"
    using False by (simp add: binade_def)
  ultimately show ?thesis
    by (simp add: power_int_minus_divide)
qed

lemma binade_upper:
  assumes "0 < x"
  shows "x < 2 powi (binade x + 1)"
proof (cases "1 \<le> x")
  case True
  let ?n = "nat \<lfloor>x\<rfloor>"
  from True have n: "0 < ?n" by simp
  from floorlog_bounds [OF n, of 2] have "?n < 2 ^ floorlog 2 ?n" by simp
  then have "int ?n < 2 ^ floorlog 2 ?n"
    by (metis of_nat_less_iff of_nat_numeral of_nat_power)
  moreover from True have "int ?n = \<lfloor>x\<rfloor>" by simp
  ultimately have "\<lfloor>x\<rfloor> < 2 ^ floorlog 2 ?n" by simp
  then have "x < of_int (2 ^ floorlog 2 ?n)" by (simp only: floor_less_iff)
  moreover have "binade x + 1 = int (floorlog 2 ?n)"
    using True by (simp add: binade_def)
  ultimately show ?thesis by simp
next
  case False
  let ?m = "nat (\<lceil>1 / x\<rceil> - 1)"
  let ?j = "floorlog 2 ?m"
  from False assms have "1 < 1 / x" by simp
  then have "of_int 2 - 1 < 1 / x" by simp
  then have two: "2 \<le> \<lceil>1 / x\<rceil>" by (simp only: le_ceiling_iff)
  then have c: "0 \<le> \<lceil>1 / x\<rceil> - 1" by linarith
  from two have "0 < \<lceil>1 / x\<rceil> - 1" by linarith
  then have m: "0 < ?m" by (simp only: zero_less_nat_eq)
  from c have im: "int ?m = \<lceil>1 / x\<rceil> - 1" by (rule nat_0_le)
  from m have j: "0 < ?j" by (simp add: floorlog_def)
  from floorlog_bounds [OF m, of 2] have "2 ^ (?j - 1) \<le> ?m" by simp
  then have "(2::int) ^ (?j - 1) \<le> int ?m"
    by (metis of_nat_le_iff of_nat_numeral of_nat_power)
  with im have "(2::int) ^ (?j - 1) < \<lceil>1 / x\<rceil>" by simp
  then have "of_int (2 ^ (?j - 1)) < 1 / x" by (simp only: less_ceiling_iff)
  then have "2 ^ (?j - 1) < 1 / x" by simp
  with assms have "x < 1 / 2 ^ (?j - 1)"
    by (simp add: field_simps)
  moreover have "binade x + 1 = - int (?j - 1)"
    using False j by (simp add: binade_def of_nat_diff)
  ultimately show ?thesis
    by (simp only: power_int_minus_divide power_int_of_nat)
qed

lemma round_half_even_ge_floor: "\<lfloor>x\<rfloor> \<le> round_half_even x"
  by (simp add: round_half_even_def)

lemma round_half_even_le: "round_half_even x \<le> \<lfloor>x\<rfloor> + 1"
  by (simp add: round_half_even_def)

lemma round_half_even_mono:
  assumes "x \<le> y"
  shows "round_half_even x \<le> round_half_even y"
proof (cases "\<lfloor>x\<rfloor> = \<lfloor>y\<rfloor>")
  case True
  with assms have "x - of_int \<lfloor>x\<rfloor> \<le> y - of_int \<lfloor>y\<rfloor>" by simp
  with True show ?thesis by (auto simp: round_half_even_def)
next
  case False
  with assms have "\<lfloor>x\<rfloor> + 1 \<le> \<lfloor>y\<rfloor>"
    using floor_mono [OF assms] by linarith
  with round_half_even_le [of x] round_half_even_ge_floor [of y] show ?thesis by linarith
qed

lemma binade_mono:
  assumes "0 < x" "x \<le> y"
  shows "binade x \<le> binade y"
proof (rule ccontr)
  assume "\<not> binade x \<le> binade y"
  then have "binade y + 1 \<le> binade x" by simp
  then have "(2::rat) powi (binade y + 1) \<le> 2 powi binade x"
    by (intro power_int_increasing) simp_all
  moreover from assms have "0 < y" by simp
  ultimately show False
    using binade_lower [OF assms(1)] binade_upper [OF \<open>0 < y\<close>] assms(2) by linarith
qed

lemma round_half_even_error: "\<bar>of_int (round_half_even y) - y\<bar> \<le> 1 / 2"
proof -
  have "0 \<le> y - of_int \<lfloor>y\<rfloor>" "y - of_int \<lfloor>y\<rfloor> < 1"
    by linarith+
  then show ?thesis
    by (auto simp: round_half_even_def abs_le_iff)
qed

lemma quantum_exp_ge: "binade x \<le> quantum_exp x" "- 1022 \<le> quantum_exp x"
  by (simp_all add: quantum_exp_def)

lemma quantum_exp_mono:
  assumes "0 < x" "x \<le> y"
  shows "quantum_exp x \<le> quantum_exp y"
  using binade_mono [OF assms] by (simp add: quantum_exp_def)

lemma scaled_upper:
  assumes "0 < x"
  shows "x * 2 powi (52 - quantum_exp x) < 2 ^ 53"
proof -
  let ?q = "quantum_exp x"
  have "(2::rat) powi (binade x + 1) \<le> 2 powi (?q + 1)"
    using quantum_exp_ge(1) [of x] by (intro power_int_increasing) simp_all
  with binade_upper [OF assms] have "x < 2 powi (?q + 1)" by simp
  then have "x * 2 powi (52 - ?q) < 2 powi (?q + 1) * 2 powi (52 - ?q)"
    by (intro mult_strict_right_mono) simp_all
  moreover have "(2::rat) powi (?q + 1) * 2 powi (52 - ?q) = 2 powi 53"
    by (simp flip: power_int_add)
  ultimately show ?thesis by simp
qed

lemma scaled_lower:
  assumes "0 < x" "quantum_exp x = binade x"
  shows "2 ^ 52 \<le> x * 2 powi (52 - quantum_exp x)"
proof -
  let ?e = "binade x"
  have "(2::rat) powi ?e * 2 powi (52 - ?e) = 2 powi 52"
    by (simp flip: power_int_add)
  moreover from binade_lower [OF assms(1)]
  have "2 powi ?e * 2 powi (52 - ?e) \<le> x * 2 powi (52 - ?e)"
    by (intro mult_right_mono) simp_all
  ultimately show ?thesis unfolding assms(2) by simp
qed

lemma round64_positive:
  "0 < x \<Longrightarrow> round64 x
     = of_int (round_half_even (x * 2 powi (52 - quantum_exp x))) * 2 powi (quantum_exp x - 52)"
  by (simp add: round64_def)

lemma round64_nonneg:
  assumes "0 \<le> x"
  shows "0 \<le> round64 x"
proof (cases "x = 0")
  case True
  then show ?thesis by (simp add: round64_def)
next
  case False
  with assms have x: "0 < x" by simp
  let ?y = "x * 2 powi (52 - quantum_exp x)"
  from x have "0 \<le> ?y" by simp
  then have "0 \<le> \<lfloor>?y\<rfloor>" by simp
  with round_half_even_ge_floor [of ?y] have "0 \<le> round_half_even ?y" by linarith
  then show ?thesis
    unfolding round64_positive [OF x] by (intro mult_nonneg_nonneg) simp_all
qed

lemma round64_upper:
  assumes "0 < x"
  shows "round64 x \<le> 2 powi (quantum_exp x + 1)"
proof -
  let ?q = "quantum_exp x"
  let ?y = "x * 2 powi (52 - ?q)"
  from scaled_upper [OF assms] have "\<lfloor>?y\<rfloor> < 2 ^ 53"
    by (simp add: floor_less_iff)
  with round_half_even_le [of ?y] have "round_half_even ?y \<le> 2 ^ 53" by linarith
  then have "of_int (round_half_even ?y) \<le> (2::rat) ^ 53"
    by (metis of_int_le_iff of_int_numeral of_int_power)
  then have "round64 x \<le> 2 ^ 53 * 2 powi (?q - 52)"
    unfolding round64_positive [OF assms] by (simp add: mult_right_mono)
  moreover have "(2::rat) ^ 53 * 2 powi (?q - 52) = 2 powi (?q + 1)"
    using power_int_add [of "2::rat" 53 "?q - 52"] by (simp add: add.commute)
  ultimately show ?thesis by simp
qed

lemma round64_lower:
  assumes "0 < x" "quantum_exp x = binade x"
  shows "2 powi binade x \<le> round64 x"
proof -
  let ?q = "quantum_exp x"
  let ?y = "x * 2 powi (52 - ?q)"
  from scaled_lower [OF assms] have "2 ^ 52 \<le> \<lfloor>?y\<rfloor>"
    by (simp add: le_floor_iff)
  with round_half_even_ge_floor [of ?y] have "2 ^ 52 \<le> round_half_even ?y" by linarith
  then have "(2::rat) ^ 52 \<le> of_int (round_half_even ?y)"
    by (metis of_int_le_iff of_int_numeral of_int_power)
  then have "2 ^ 52 * 2 powi (?q - 52) \<le> round64 x"
    unfolding round64_positive [OF assms(1)] by (simp add: mult_right_mono)
  moreover have "(2::rat) ^ 52 * 2 powi (?q - 52) = 2 powi ?q"
    using power_int_add [of "2::rat" 52 "?q - 52"] by simp
  ultimately show ?thesis unfolding assms(2) by simp
qed

lemma round64_mono:
  assumes "0 \<le> x" "x \<le> y"
  shows "round64 x \<le> round64 y"
proof (cases "x = 0")
  case True
  from assms have "0 \<le> y" by simp
  from round64_nonneg [OF this] True show ?thesis by (simp add: round64_def)
next
  case False
  with assms have x: "0 < x" and y: "0 < y" by simp_all
  show ?thesis
  proof (cases "quantum_exp x = quantum_exp y")
    case True
    have "x * 2 powi (52 - quantum_exp y) \<le> y * 2 powi (52 - quantum_exp y)"
      using assms(2) by (intro mult_right_mono) simp_all
    then have "round_half_even (x * 2 powi (52 - quantum_exp y))
                 \<le> round_half_even (y * 2 powi (52 - quantum_exp y))"
      by (rule round_half_even_mono)
    then have "(of_int (round_half_even (x * 2 powi (52 - quantum_exp y))) :: rat)
                   * 2 powi (quantum_exp y - 52)
                 \<le> of_int (round_half_even (y * 2 powi (52 - quantum_exp y)))
                   * 2 powi (quantum_exp y - 52)"
      by (intro mult_right_mono) simp_all
    then show ?thesis
      unfolding round64_positive [OF x] round64_positive [OF y] True .
  next
    case False
    with quantum_exp_mono [OF x assms(2)] have less: "quantum_exp x + 1 \<le> quantum_exp y"
      by simp
    with quantum_exp_ge(2) [of x] have "quantum_exp y = binade y"
      by (simp add: quantum_exp_def max_def split: if_splits)
    from round64_lower [OF y this] this have "2 powi quantum_exp y \<le> round64 y" by simp
    moreover from less have "(2::rat) powi (quantum_exp x + 1) \<le> 2 powi quantum_exp y"
      by (intro power_int_increasing) simp_all
    ultimately show ?thesis using round64_upper [OF x] by linarith
  qed
qed



lemma round64_error:
  assumes "0 < x"
  shows "\<bar>round64 x - x\<bar> \<le> 2 powi (quantum_exp x - 53)"
proof -
  let ?e = "quantum_exp x"
  let ?y = "x * 2 powi (52 - ?e)"
  have u: "(0::rat) < 2 powi (?e - 52)" by simp
  have "?y * 2 powi (?e - 52) = x * (2 powi (52 - ?e) * 2 powi (?e - 52))"
    by (simp only: mult.assoc)
  also have "(2::rat) powi (52 - ?e) * 2 powi (?e - 52) = 1"
    by (simp flip: power_int_add)
  finally have x: "x = ?y * 2 powi (?e - 52)" by simp
  have "round64 x - x = (of_int (round_half_even ?y) - ?y) * 2 powi (?e - 52)"
    unfolding round64_positive [OF assms] by (subst (2) x) (simp only: left_diff_distrib)
  then have "\<bar>round64 x - x\<bar> = \<bar>of_int (round_half_even ?y) - ?y\<bar> * 2 powi (?e - 52)"
    using u by (simp add: abs_mult)
  also have "\<dots> \<le> 1 / 2 * 2 powi (?e - 52)"
    using u round_half_even_error [of ?y] by (intro mult_right_mono) simp_all
  also have "\<dots> = 2 powi (?e - 53)"
    using power_int_add [of "2::rat" "- 1" "?e - 52"] by simp
  finally show ?thesis .
qed

section \<open>The loops of the fusion\<close>

lemma set_first_seen [simp]: "set (first_seen xs) = set xs"
  by (induction xs) auto

lemma distinct_first_seen [simp]: "distinct (first_seen xs)"
  by (induction xs) (auto simp: distinct_removeAll)

lemma filter_removeAll_absorb: "\<not> P x \<Longrightarrow> filter P (removeAll x xs) = filter P xs"
  by (induction xs) auto

lemma filter_removeAll_conj:
  "filter (\<lambda>y. P y \<and> y \<noteq> x) xs = filter P (removeAll x xs)"
  by (induction xs) auto

lemma update_keys_if:
  "map fst (AList.update key v fs) =
     (if key \<in> set (map fst fs) then map fst fs else map fst fs @ [key])"
  by (induction fs) auto

lemma map_of_fresh_zero:
  "map_of (if map_of fs key = None then AList.update key 0 fs else fs) key
     = Some (get0 fs key)"
  by (auto simp: get0_def update_conv')

lemma get0_fresh_zero:
  "get0 (if map_of fs key = None then AList.update key 0 fs else fs) key' = get0 fs key'"
  by (auto simp: get0_def update_conv')

lemma keys_fresh_zero:
  "map fst (if map_of fs key = None then AList.update key (0::rat) fs else fs)
     = (if key \<in> set (map fst fs) then map fst fs else map fst fs @ [key])"
  by (auto simp: update_keys_if map_of_eq_None_iff)

lemma get0_update:
  "get0 (AList.update key v fs) key' = (if key' = key then v else get0 fs key')"
  by (simp add: get0_def update_conv')

lemma rank_loop_error:
  "rank_loop fl dumps k ps fs = Inl e \<Longrightarrow>
     e = ZeroDivisionError \<and> (\<exists>p \<in> set ps. int (fst p) + k = 0)"
proof (induction ps arbitrary: fs)
  case Nil
  then show ?case by simp
next
  case (Cons p ps)
  obtain rank doc where p: "p = (rank, doc)" by (cases p)
  show ?case
  proof (cases "int rank + k = 0")
    case True
    with Cons.prems p show ?thesis
      by (auto simp: Let_def map_of_fresh_zero)
  next
    case False
    with Cons.prems p have
      "rank_loop fl dumps k ps
         (AList.update (dumps doc) (fl (get0 fs (dumps doc) + fl (1 / of_int (int rank + k))))
            (if map_of fs (dumps doc) = None then AList.update (dumps doc) 0 fs else fs)) = Inl e"
      by (simp add: Let_def map_of_fresh_zero)
    from Cons.IH [OF this] show ?thesis by auto
  qed
qed

lemma rank_loop_ok:
  "\<forall>p \<in> set ps. int (fst p) + k \<noteq> 0 \<Longrightarrow> \<exists>fs'. rank_loop fl dumps k ps fs = Inr fs'"
proof (induction ps arbitrary: fs)
  case Nil
  then show ?case by simp
next
  case (Cons p ps)
  obtain rank doc where p: "p = (rank, doc)" by (cases p)
  from Cons.prems p have nz: "int rank + k \<noteq> 0" by simp
  from Cons.prems have "\<forall>p \<in> set ps. int (fst p) + k \<noteq> 0" by simp
  from Cons.IH [OF this] show ?case
    using p nz by (simp add: Let_def map_of_fresh_zero)
qed

lemma rank_loop_zero:
  "\<exists>p \<in> set ps. int (fst p) + k = 0 \<Longrightarrow> rank_loop fl dumps k ps fs = Inl ZeroDivisionError"
proof (induction ps arbitrary: fs)
  case Nil
  then show ?case by simp
next
  case (Cons p ps)
  obtain rank doc where p: "p = (rank, doc)" by (cases p)
  show ?case
  proof (cases "int rank + k = 0")
    case True
    with p show ?thesis by (simp add: Let_def map_of_fresh_zero)
  next
    case False
    with Cons.prems p have "\<exists>p \<in> set ps. int (fst p) + k = 0" by simp
    from Cons.IH [OF this] show ?thesis
      using p False by (simp add: Let_def map_of_fresh_zero)
  qed
qed

lemma rank_loop_keys:
  "rank_loop fl dumps k ps fs = Inr fs' \<Longrightarrow>
     map fst fs' = map fst fs
        @ filter (\<lambda>y. y \<notin> set (map fst fs)) (first_seen (map (\<lambda>p. dumps (snd p)) ps))"
proof (induction ps arbitrary: fs)
  case Nil
  then show ?case by simp
next
  case (Cons p ps)
  obtain rank doc where p: "p = (rank, doc)" by (cases p)
  let ?fs1 = "if map_of fs (dumps doc) = None then AList.update (dumps doc) 0 fs else fs"
  let ?fs2 = "AList.update (dumps doc)
                (fl (get0 fs (dumps doc) + fl (1 / of_int (int rank + k)))) ?fs1"
  from Cons.prems p have run: "rank_loop fl dumps k ps ?fs2 = Inr fs'"
    by (simp add: Let_def map_of_fresh_zero split: if_splits)
  have keys2: "map fst ?fs2 =
      (if dumps doc \<in> set (map fst fs) then map fst fs else map fst fs @ [dumps doc])"
    by (simp add: update_keys_if keys_fresh_zero del: set_map)
  show ?case
  proof (cases "dumps doc \<in> set (map fst fs)")
    case True
    with keys2 have "map fst ?fs2 = map fst fs" by simp
    with Cons.IH [OF run] True p show ?thesis
      by (simp add: filter_removeAll_absorb del: set_map)
  next
    case False
    with keys2 have k2: "map fst ?fs2 = map fst fs @ [dumps doc]" by simp
    have "filter (\<lambda>y. y \<notin> set (map fst fs @ [dumps doc])) xs
            = filter (\<lambda>y. y \<notin> set (map fst fs)) (removeAll (dumps doc) xs)" for xs
      using filter_removeAll_conj [of "\<lambda>y. y \<notin> set (map fst fs)" "dumps doc" xs]
      by (simp add: conj_commute)
    with Cons.IH [OF run] k2 False p show ?thesis
      by (simp del: set_map)
  qed
qed

lemma rank_loop_scores:
  "rank_loop fl dumps k ps fs = Inr fs' \<Longrightarrow>
     get0 fs' key = fsum fl (get0 fs key) (contribs fl dumps k key ps)"
proof (induction ps arbitrary: fs)
  case Nil
  then show ?case by (simp add: fsum_def contribs_def)
next
  case (Cons p ps)
  obtain rank doc where p: "p = (rank, doc)" by (cases p)
  let ?fs1 = "if map_of fs (dumps doc) = None then AList.update (dumps doc) 0 fs else fs"
  let ?fs2 = "AList.update (dumps doc)
                (fl (get0 fs (dumps doc) + fl (1 / of_int (int rank + k)))) ?fs1"
  from Cons.prems p have run: "rank_loop fl dumps k ps ?fs2 = Inr fs'"
    by (simp add: Let_def map_of_fresh_zero split: if_splits)
  have "get0 ?fs2 key =
      (if key = dumps doc then fl (get0 fs key + fl (1 / of_int (int rank + k)))
       else get0 fs key)"
    by (cases "key = dumps doc") (simp_all only: get0_update get0_fresh_zero if_True if_False)
  with Cons.IH [OF run] p show ?case
    by (simp add: fsum_def contribs_def)
qed

lemma first_seen_append:
  "first_seen (xs @ ys) = first_seen xs @ filter (\<lambda>y. y \<notin> set xs) (first_seen ys)"
proof (induction xs)
  case Nil
  then show ?case by simp
next
  case (Cons x xs)
  have "removeAll x (filter (\<lambda>y. y \<notin> set xs) zs) = filter (\<lambda>y. y \<notin> set (x # xs)) zs" for zs
    by (induction zs) auto
  with Cons show ?case by simp
qed

lemma enumerate_zero_iff:
  "(\<exists>p \<in> set (enumerate 0 docs). int (fst p) + k = 0) \<longleftrightarrow> (\<exists>rank < length docs. int rank + k = 0)"
proof -
  have "fst ` set (enumerate 0 docs) = {0..<length docs}"
    by (simp flip: set_map)
  then have "(\<exists>r \<in> fst ` set (enumerate 0 docs). int r + k = 0)
               \<longleftrightarrow> (\<exists>rank < length docs. int rank + k = 0)"
    by auto
  then show ?thesis by (simp only: bex_simps(7))
qed

lemma lists_loop_error:
  "lists_loop fl dumps k results fs = Inl e \<Longrightarrow> e = ZeroDivisionError \<and> zero_rank k results"
proof (induction results arbitrary: fs)
  case Nil
  then show ?case by simp
next
  case (Cons docs results)
  show ?case
  proof (cases "rank_loop fl dumps k (enumerate 0 docs) fs")
    case (Inl e')
    with Cons.prems have "e' = e" by simp
    with rank_loop_error [OF Inl] show ?thesis
      by (auto simp: zero_rank_def enumerate_zero_iff)
  next
    case (Inr fs1)
    with Cons.prems have "lists_loop fl dumps k results fs1 = Inl e" by simp
    from Cons.IH [OF this] show ?thesis by (auto simp: zero_rank_def)
  qed
qed

lemma lists_loop_zero:
  "zero_rank k results \<Longrightarrow> lists_loop fl dumps k results fs = Inl ZeroDivisionError"
proof (induction results arbitrary: fs)
  case Nil
  then show ?case by (simp add: zero_rank_def)
next
  case (Cons docs results)
  show ?case
  proof (cases "\<exists>rank < length docs. int rank + k = 0")
    case True
    then have "rank_loop fl dumps k (enumerate 0 docs) fs = Inl ZeroDivisionError"
      by (intro rank_loop_zero) (simp only: enumerate_zero_iff)
    then show ?thesis by simp
  next
    case False
    with Cons.prems have z: "zero_rank k results" by (auto simp: zero_rank_def)
    from False have "\<forall>p \<in> set (enumerate 0 docs). int (fst p) + k \<noteq> 0"
      using enumerate_zero_iff [of docs k] by blast
    from rank_loop_ok [OF this] obtain fs1
      where "rank_loop fl dumps k (enumerate 0 docs) fs = Inr fs1" by blast
    with Cons.IH [OF z] show ?thesis by simp
  qed
qed

lemma lists_loop_ok:
  "\<not> zero_rank k results \<Longrightarrow> \<exists>fs'. lists_loop fl dumps k results fs = Inr fs'"
  by (cases "lists_loop fl dumps k results fs") (auto dest: lists_loop_error)

lemma lists_loop_keys:
  "lists_loop fl dumps k results fs = Inr fs' \<Longrightarrow>
     map fst fs' = map fst fs
        @ filter (\<lambda>y. y \<notin> set (map fst fs)) (first_seen (map dumps (concat results)))"
proof (induction results arbitrary: fs)
  case Nil
  then show ?case by simp
next
  case (Cons docs results)
  from Cons.prems obtain fs1 where
    inner: "rank_loop fl dumps k (enumerate 0 docs) fs = Inr fs1" and
    rest: "lists_loop fl dumps k results fs1 = Inr fs'"
    by (auto split: sum.splits)
  have "map (\<lambda>p. dumps (snd p)) (enumerate 0 docs) = map dumps docs"
    by (simp add: map_snd_enumerate flip: map_map [unfolded comp_def])
  with rank_loop_keys [OF inner] have k1:
    "map fst fs1 = map fst fs @ filter (\<lambda>y. y \<notin> set (map fst fs)) (first_seen (map dumps docs))"
    by simp
  have s1: "set (map fst fs1) = set (map fst fs) \<union> set (map dumps docs)"
    unfolding k1 by auto
  have "filter (\<lambda>y. y \<notin> set (map fst fs1)) zs
          = filter (\<lambda>y. y \<notin> set (map fst fs)) (filter (\<lambda>y. y \<notin> set (map dumps docs)) zs)" for zs
    unfolding s1 by (induction zs) auto
  with Cons.IH [OF rest] k1 show ?case
    by (simp add: first_seen_append del: set_map)
qed

lemma fsum_append: "fsum fl acc (xs @ ys) = fsum fl (fsum fl acc xs) ys"
  by (simp add: fsum_def)

lemma lists_loop_scores:
  "lists_loop fl dumps k results fs = Inr fs' \<Longrightarrow>
     get0 fs' key = fsum fl (get0 fs key)
        (concat (map (\<lambda>docs. contribs fl dumps k key (enumerate 0 docs)) results))"
proof (induction results arbitrary: fs)
  case Nil
  then show ?case by (simp add: fsum_def)
next
  case (Cons docs results)
  from Cons.prems obtain fs1 where
    inner: "rank_loop fl dumps k (enumerate 0 docs) fs = Inr fs1" and
    rest: "lists_loop fl dumps k results fs1 = Inr fs'"
    by (auto split: sum.splits)
  from Cons.IH [OF rest] rank_loop_scores [OF inner] show ?case
    by (simp add: fsum_append)
qed

lemma alist_by_keys:
  "distinct (map fst xs) \<Longrightarrow> xs = map (\<lambda>key. (key, get0 xs key)) (map fst xs)"
proof (induction xs)
  case Nil
  then show ?case by simp
next
  case (Cons x xs)
  obtain a b where x: "x = (a, b)" by (cases x)
  from Cons.prems x have "a \<notin> fst ` set xs" by simp
  then have "\<forall>key \<in> set (map fst xs). get0 (x # xs) key = get0 xs key"
    using x by (auto simp: get0_def)
  then have "map (\<lambda>key. (key, get0 (x # xs) key)) (map fst xs)
               = map (\<lambda>key. (key, get0 xs key)) (map fst xs)"
    by (intro map_cong) auto
  with Cons x show ?case by (simp add: get0_def)
qed

lemma lists_loop_closed_form:
  assumes "lists_loop fl dumps k results [] = Inr fused"
  shows "fused = map (\<lambda>key. (key, rrf_score fl dumps k results key))
                   (first_seen (map dumps (concat results)))"
proof -
  from lists_loop_keys [OF assms]
  have keys: "map fst fused = first_seen (map dumps (concat results))" by simp
  then have "distinct (map fst fused)" by simp
  from alist_by_keys [OF this] have "fused = map (\<lambda>key. (key, get0 fused key)) (map fst fused)" .
  moreover have "get0 fused key = rrf_score fl dumps k results key" for key
    using lists_loop_scores [OF assms, of key] by (simp add: rrf_score_def get0_def)
  ultimately show ?thesis using keys by simp
qed

section \<open>The fused ranking\<close>

lemma rrf_closed_form:
  "reciprocal_rank_fusion fl dumps loads results k =
     (if zero_rank k results then Inl ZeroDivisionError
      else Inr (map (\<lambda>(key, score). (loads key, score)) (ranking fl dumps k results)))"
proof (cases "zero_rank k results")
  case True
  then show ?thesis
    by (simp add: reciprocal_rank_fusion_def lists_loop_zero)
next
  case False
  from lists_loop_ok [OF this] obtain fused
    where run: "lists_loop fl dumps k results [] = Inr fused" by blast
  from lists_loop_closed_form [OF run] run False show ?thesis
    by (simp add: reciprocal_rank_fusion_def ranking_def)
qed

lemma ranking_keys:
  "distinct (map fst (ranking fl dumps k results))"
  "set (map fst (ranking fl dumps k results)) = dumps ` set (concat results)"
proof -
  let ?fused = "map (\<lambda>key. (key, rrf_score fl dumps k results key))
                  (first_seen (map dumps (concat results)))"
  have m: "map fst ?fused = first_seen (map dumps (concat results))"
    by (simp add: comp_def)
  have "distinct (map fst ?fused)" unfolding m by simp
  then have "distinct ?fused \<and> inj_on fst (set ?fused)"
    by (simp only: distinct_map)
  then have "distinct (sort_key (\<lambda>x. - snd x) ?fused)
               \<and> inj_on fst (set (sort_key (\<lambda>x. - snd x) ?fused))"
    by simp
  then show "distinct (map fst (ranking fl dumps k results))"
    unfolding ranking_def sorted_reverse_def by (simp only: distinct_map)
  have "set (map fst (ranking fl dumps k results)) = set (map fst ?fused)"
    unfolding ranking_def sorted_reverse_def by (simp only: set_map set_sort)
  then show "set (map fst (ranking fl dumps k results)) = dumps ` set (concat results)"
    unfolding m by simp
qed

lemma ranking_scores:
  "(key, score) \<in> set (ranking fl dumps k results) \<Longrightarrow> score = rrf_score fl dumps k results key"
  by (auto simp: ranking_def sorted_reverse_def)

lemma ranking_sorted: "sorted_wrt (\<lambda>a b. b \<le> a) (map snd (ranking fl dumps k results))"
proof -
  have "sorted (map (\<lambda>x. - snd x) (ranking fl dumps k results))"
    unfolding ranking_def sorted_reverse_def by (rule sorted_sort_key)
  then show ?thesis
    by (simp add: sorted_map sorted_wrt_map)
qed

lemma first_index_Cons:
  "first_index (x # xs) y = (if y = x then 0 else Suc (first_index xs y))"
  by (auto simp: first_index_def)

lemma first_seen_by_index:
  "sorted_wrt (\<lambda>a b. first_index xs a < first_index xs b) (first_seen xs)"
proof (induction xs)
  case Nil
  then show ?case by simp
next
  case (Cons x xs)
  have "sorted_wrt (\<lambda>a b. first_index xs a < first_index xs b) (removeAll x (first_seen xs))"
    using Cons by (simp add: removeAll_filter_not_eq sorted_wrt_filter)
  then have "sorted_wrt (\<lambda>a b. first_index (x # xs) a < first_index (x # xs) b)
               (removeAll x (first_seen xs))"
    by (rule sorted_wrt_mono_rel [rotated]) (auto simp: first_index_Cons)
  then show ?case
    by (auto simp: first_index_Cons)
qed

lemma ranking_stable:
  "sorted_wrt (\<lambda>a b. first_index (map dumps (concat results)) a
                       < first_index (map dumps (concat results)) b)
     (map fst (filter (\<lambda>p. snd p = s) (ranking fl dumps k results)))"
proof -
  let ?keys = "first_seen (map dumps (concat results))"
  let ?fused = "map (\<lambda>key. (key, rrf_score fl dumps k results key)) ?keys"
  have "filter (\<lambda>p. snd p = s) (ranking fl dumps k results)
          = filter (\<lambda>p. - snd p = - s) (sort_key (\<lambda>x. - snd x) ?fused)"
    by (simp add: ranking_def sorted_reverse_def)
  also have "\<dots> = filter (\<lambda>p. - snd p = - s) ?fused"
    by (rule sort_key_stable)
  finally have "map fst (filter (\<lambda>p. snd p = s) (ranking fl dumps k results))
                  = filter (\<lambda>key. rrf_score fl dumps k results key = s) ?keys"
    by (simp add: filter_map comp_def)
  then show ?thesis
    by (simp add: sorted_wrt_filter first_seen_by_index)
qed

subsection \<open>Loading the ranked keys\<close>

lemma load_ranked_returns:
  "load_ranked (\<lambda>key. Inr (loads key)) ranked
     = Inr (map (\<lambda>(key, score). (loads key, score)) ranked)"
  by (induction ranked) auto

lemma load_ranked_Inr_iff:
  "load_ranked loads ranked = Inr out \<longleftrightarrow>
     map (\<lambda>(key, score). (loads key, score)) ranked = map (\<lambda>(doc, score). (Inr doc, score)) out"
proof (induction ranked arbitrary: out)
  case Nil
  then show ?case by auto
next
  case (Cons p ranked)
  obtain key score where p: "p = (key, score)" by (cases p)
  show ?case
  proof (cases "loads key")
    case (Inl e)
    with p show ?thesis by (cases out) auto
  next
    case (Inr d)
    show ?thesis
    proof (cases "load_ranked loads ranked")
      case (Inl e)
      with Cons.IH have "\<And>out'. map (\<lambda>(key, score). (loads key, score)) ranked
                          \<noteq> map (\<lambda>(doc, score). (Inr doc, score)) out'"
        by simp
      with p Inr Inl show ?thesis by (cases out) auto
    next
      case r: (Inr reranked)
      show ?thesis
      proof (cases out)
        case Nil
        with p Inr r show ?thesis by simp
      next
        case (Cons q out')
        with p Inr r Cons.IH [of out'] show ?thesis by (cases q) auto
      qed
    qed
  qed
qed




lemma rrf_raising_closed_form:
  "reciprocal_rank_fusion_raising fl dumps loads results k =
     (if zero_rank k results then Inl ZeroDivisionError
      else load_ranked loads (ranking fl dumps k results))"
proof (cases "zero_rank k results")
  case True
  then show ?thesis
    by (simp add: reciprocal_rank_fusion_raising_def lists_loop_zero)
next
  case False
  from lists_loop_ok [OF this] obtain fused
    where run: "lists_loop fl dumps k results [] = Inr fused" by blast
  from lists_loop_closed_form [OF run] run False show ?thesis
    by (simp add: reciprocal_rank_fusion_raising_def ranking_def)
qed

text \<open>With a \<^verbatim>\<open>loads\<close> that returns, the two models of the function agree.\<close>

lemma rrf_raising_returns:
  "reciprocal_rank_fusion_raising fl dumps (\<lambda>key. Inr (loads key)) results k
     = reciprocal_rank_fusion fl dumps loads results k"
  by (simp add: rrf_raising_closed_form rrf_closed_form load_ranked_returns)


section \<open>Fused scores\<close>

lemma fsum_exact: "fsum (\<lambda>x. x) acc cs = acc + sum_list cs"
  by (induction cs arbitrary: acc) (simp_all add: fsum_def)

lemma contribs_exact_sum:
  "sum_list (contribs (\<lambda>x. x) dumps k key ps)
     = (\<Sum>(rank, doc)\<leftarrow>ps. if dumps doc = key then 1 / of_int (int rank + k) else 0)"
  by (induction ps) (auto simp: contribs_def)

lemma rrf_score_exact:
  "rrf_score (\<lambda>x. x) dumps k results key
     = (\<Sum>docs\<leftarrow>results. \<Sum>(rank, doc)\<leftarrow>enumerate 0 docs.
          if dumps doc = key then 1 / of_int (int rank + k) else 0)"
  by (induction results)
     (simp_all add: rrf_score_def fsum_exact contribs_exact_sum)

lemma contribs_absent:
  "key \<notin> dumps ` snd ` set ps \<Longrightarrow> contribs fl dumps k key ps = []"
  by (induction ps) (auto simp: contribs_def)

lemma contribs_enumerate:
  "contribs fl dumps k key (enumerate n docs)
     = map (\<lambda>rank. fl (1 / of_int (int rank + k)))
         (filter (\<lambda>rank. dumps (docs ! (rank - n)) = key) [n..<n + length docs])"
proof (induction docs arbitrary: n)
  case Nil
  then show ?case by (simp add: contribs_def)
next
  case (Cons d docs)
  define rest where "rest = [Suc n..<Suc n + length docs]"
  have shift: "(d # docs) ! (rank - n) = docs ! (rank - Suc n)" if "Suc n \<le> rank" for rank
    using that Suc_diff_Suc [of n rank] by (metis Suc_le_lessD nth_Cons_Suc)
  have "(dumps ((d # docs) ! (rank - n)) = key) = (dumps (docs ! (rank - Suc n)) = key)"
    if "rank \<in> set rest" for rank
  proof -
    from that have "Suc n \<le> rank" by (auto simp: rest_def)
    then show ?thesis by (simp only: shift)
  qed
  then have same: "filter (\<lambda>rank. dumps ((d # docs) ! (rank - n)) = key) rest
          = filter (\<lambda>rank. dumps (docs ! (rank - Suc n)) = key) rest"
    by (intro filter_cong refl)
  have range: "[n..<n + length (d # docs)] = n # rest"
    unfolding rest_def by (simp add: upt_conv_Cons del: upt_Suc)
  have step: "contribs fl dumps k key (enumerate n (d # docs))
          = (if dumps d = key then [fl (1 / of_int (int n + k))] else [])
            @ contribs fl dumps k key (enumerate (Suc n) docs)"
    by (simp add: contribs_def)
  have ih: "contribs fl dumps k key (enumerate (Suc n) docs)
          = map (\<lambda>rank. fl (1 / of_int (int rank + k)))
              (filter (\<lambda>rank. dumps (docs ! (rank - Suc n)) = key) rest)"
    unfolding rest_def by (rule Cons.IH)
  show ?case
    unfolding range step ih same [symmetric] by simp
qed

lemma singleton_list: "distinct xs \<Longrightarrow> set xs = {x} \<Longrightarrow> xs = [x]"
proof (cases xs)
  case Nil
  assume "set xs = {x}"
  with Nil show ?thesis by simp
next
  case (Cons y ys)
  assume d: "distinct xs" and s: "set xs = {x}"
  from s Cons have "y = x" by auto
  moreover from d s Cons have "set ys \<subseteq> {x}" "x \<notin> set ys" using \<open>y = x\<close> by auto
  then have "ys = []" by (cases ys) auto
  ultimately show ?thesis using Cons by simp
qed

lemma contribs_once:
  assumes "rank < length docs" "dumps (docs ! rank) = key"
    and "\<forall>j < length docs. dumps (docs ! j) = key \<longrightarrow> j = rank"
  shows "contribs fl dumps k key (enumerate 0 docs) = [fl (1 / of_int (int rank + k))]"
proof -
  let ?hits = "filter (\<lambda>r. dumps (docs ! r) = key) [0..<length docs]"
  have "distinct ?hits" by simp
  moreover have "set ?hits = {rank}"
  proof
    show "set ?hits \<subseteq> {rank}" using assms(3) by auto
    show "{rank} \<subseteq> set ?hits" using assms(1,2) by simp
  qed
  ultimately have "?hits = [rank]"
    by (rule singleton_list)
  then show ?thesis
    by (simp add: contribs_enumerate)
qed

text \<open>
  C1. Every serialisation key that occurs in an input list is in the output once, with
  the float sum of the contributions \<open>1 / (rank + k)\<close> of all the positions at which it
  occurs, list after list. A list in which it does not occur contributes nothing, a list
  in which it occurs once, at \<open>rank\<close>, contributes \<open>1 / (rank + k)\<close>, and in exact
  arithmetic the score is the sum over the lists of these contributions.
\<close>

theorem rrf_score_is_sum_of_contributions:
  assumes "reciprocal_rank_fusion fl dumps loads results k = Inr out"
  shows "\<exists>ranked.
           out = map (\<lambda>(key, score). (loads key, score)) ranked
         \<and> distinct (map fst ranked)
         \<and> set (map fst ranked) = dumps ` set (concat results)
         \<and> (\<forall>(key, score) \<in> set ranked.
               score = fsum fl 0
                  (concat (map (\<lambda>docs. contribs fl dumps k key (enumerate 0 docs)) results))
             \<and> (\<forall>docs \<in> set results.
                   (key \<notin> dumps ` set docs \<longrightarrow> contribs fl dumps k key (enumerate 0 docs) = [])
                 \<and> (\<forall>rank < length docs.
                       dumps (docs ! rank) = key
                     \<and> (\<forall>j < length docs. dumps (docs ! j) = key \<longrightarrow> j = rank)
                     \<longrightarrow> contribs fl dumps k key (enumerate 0 docs)
                           = [fl (1 / of_int (int rank + k))]))
             \<and> ((\<forall>x. fl x = x) \<longrightarrow>
                   score = (\<Sum>docs\<leftarrow>results. \<Sum>(rank, doc)\<leftarrow>enumerate 0 docs.
                              if dumps doc = key then 1 / of_int (int rank + k) else 0)))"
proof -
  let ?ranked = "ranking fl dumps k results"
  from assms have out: "out = map (\<lambda>(key, score). (loads key, score)) ?ranked"
    by (simp add: rrf_closed_form split: if_splits)
  have scores: "\<forall>(key, score) \<in> set ?ranked.
           score = fsum fl 0
              (concat (map (\<lambda>docs. contribs fl dumps k key (enumerate 0 docs)) results))
         \<and> (\<forall>docs \<in> set results.
               (key \<notin> dumps ` set docs \<longrightarrow> contribs fl dumps k key (enumerate 0 docs) = [])
             \<and> (\<forall>rank < length docs.
                   dumps (docs ! rank) = key
                 \<and> (\<forall>j < length docs. dumps (docs ! j) = key \<longrightarrow> j = rank)
                 \<longrightarrow> contribs fl dumps k key (enumerate 0 docs)
                       = [fl (1 / of_int (int rank + k))]))
         \<and> ((\<forall>x. fl x = x) \<longrightarrow>
               score = (\<Sum>docs\<leftarrow>results. \<Sum>(rank, doc)\<leftarrow>enumerate 0 docs.
                          if dumps doc = key then 1 / of_int (int rank + k) else 0))"
  proof (rule ballI, rule case_prodI2, intro conjI ballI allI impI)
    fix p key score
    assume "p \<in> set ?ranked" "p = (key, score)"
    then have sc: "score = rrf_score fl dumps k results key"
      by (simp add: ranking_scores)
    then show "score = fsum fl 0
        (concat (map (\<lambda>docs. contribs fl dumps k key (enumerate 0 docs)) results))"
      by (simp add: rrf_score_def)
    show "contribs fl dumps k key (enumerate 0 docs) = []" if "key \<notin> dumps ` set docs" for docs
      using that by (intro contribs_absent) (simp flip: set_map)
    show "contribs fl dumps k key (enumerate 0 docs) = [fl (1 / of_int (int rank + k))]"
      if "rank < length docs"
        "dumps (docs ! rank) = key \<and> (\<forall>j < length docs. dumps (docs ! j) = key \<longrightarrow> j = rank)"
      for docs rank
    proof (rule contribs_once)
      show "rank < length docs" by fact
      show "dumps (docs ! rank) = key" using that(2) by (rule conjunct1)
      show "\<forall>j < length docs. dumps (docs ! j) = key \<longrightarrow> j = rank"
        using that(2) by (rule conjunct2)
    qed
    show "score = (\<Sum>docs\<leftarrow>results. \<Sum>(rank, doc)\<leftarrow>enumerate 0 docs.
                     if dumps doc = key then 1 / of_int (int rank + k) else 0)"
      if "\<forall>x. fl x = x"
    proof -
      from that have "fl = (\<lambda>x. x)" by auto
      with sc show ?thesis by (simp add: rrf_score_exact)
    qed
  qed
  show ?thesis
    by (rule exI [of _ ?ranked], intro conjI)
       (rule out ranking_keys scores)+
qed

theorem rrf_score_is_sum_of_contributions_witness:
  "reciprocal_rank_fusion (\<lambda>x. x) id id [[''A'', ''B''], [''B'']] 60
     = Inr [(''B'', 1 / 61 + 1 / 60), (''A'', 1 / 60)]
   \<and> (\<exists>ranked.
         [(''B'', 1 / 61 + 1 / 60), (''A'', 1 / 60)] = map (\<lambda>(key, score). (id key, score)) ranked
       \<and> distinct (map fst ranked)
       \<and> set (map fst ranked) = id ` set (concat [[''A'', ''B''], [''B'']])
       \<and> (\<forall>(key, score) \<in> set ranked.
             score = fsum (\<lambda>x. x) 0
                (concat (map (\<lambda>docs. contribs (\<lambda>x. x) id 60 key (enumerate 0 docs))
                   [[''A'', ''B''], [''B'']]))
           \<and> (\<forall>docs \<in> set [[''A'', ''B''], [''B'']].
                 (key \<notin> id ` set docs \<longrightarrow> contribs (\<lambda>x. x) id 60 key (enumerate 0 docs) = [])
               \<and> (\<forall>rank < length docs.
                     id (docs ! rank) = key
                   \<and> (\<forall>j < length docs. id (docs ! j) = key \<longrightarrow> j = rank)
                   \<longrightarrow> contribs (\<lambda>x. x) id 60 key (enumerate 0 docs)
                         = [1 / of_int (int rank + 60)]))
           \<and> ((\<forall>x::rat. x = x) \<longrightarrow>
                 score = (\<Sum>docs\<leftarrow>[[''A'', ''B''], [''B'']]. \<Sum>(rank, doc)\<leftarrow>enumerate 0 docs.
                            if id doc = key then 1 / of_int (int rank + 60) else 0))))"
proof -
  have run: "reciprocal_rank_fusion (\<lambda>x. x) id id [[''A'', ''B''], [''B'']] 60
               = Inr [(''B'', 1 / 61 + 1 / 60), (''A'', 1 / 60)]"
    by (simp add: rrf_eval)
  show ?thesis
    by (rule conjI [OF run rrf_score_is_sum_of_contributions [OF run]])
qed

section \<open>The order of the output\<close>

lemma map_loads_snd:
  "map snd (map (\<lambda>(key, score). (loads key, score)) ranked) = map snd ranked"
  by (induction ranked) auto

lemma map_loads_fst:
  "map fst (map (\<lambda>(key, score). (loads key, score)) ranked) = map loads (map fst ranked)"
  by (induction ranked) auto

lemma map_dumps_loads:
  "\<forall>key \<in> set (map fst ranked). dumps (loads key) = key \<Longrightarrow>
     map (\<lambda>(doc, score). (dumps doc, score)) (map (\<lambda>(key, score). (loads key, score)) ranked)
       = ranked"
  by (induction ranked) auto

text \<open>
  C2. The output holds every serialisation key of the input once (so it is as long as
  there are distinct keys), its scores do not increase along the sequence, and the
  documents that share a score stand in the order in which they were first met in the
  concatenated input lists. When \<^verbatim>\<open>loads\<close> inverts \<^verbatim>\<open>dumps\<close> on the input, the
  output documents are the distinct input documents, each once.
\<close>

theorem rrf_output_is_ranked_permutation:
  assumes "reciprocal_rank_fusion fl dumps loads results k = Inr out"
  shows "\<exists>ranked.
           out = map (\<lambda>(key, score). (loads key, score)) ranked
         \<and> distinct (map fst ranked)
         \<and> set (map fst ranked) = dumps ` set (concat results)
         \<and> length out = card (dumps ` set (concat results))
         \<and> sorted_wrt (\<lambda>a b. b \<le> a) (map snd out)
         \<and> (\<forall>s. sorted_wrt
                  (\<lambda>a b. first_index (map dumps (concat results)) a
                           < first_index (map dumps (concat results)) b)
                  (map fst (filter (\<lambda>p. snd p = s) ranked)))
         \<and> ((\<forall>doc \<in> set (concat results). loads (dumps doc) = doc) \<longrightarrow>
               map (\<lambda>(doc, score). (dumps doc, score)) out = ranked
             \<and> distinct (map fst out)
             \<and> set (map fst out) = set (concat results))"
proof -
  let ?ranked = "ranking fl dumps k results"
  note keys = ranking_keys [of fl dumps k results]
  from assms have out: "out = map (\<lambda>(key, score). (loads key, score)) ?ranked"
    by (simp add: rrf_closed_form split: if_splits)
  have len: "length out = card (dumps ` set (concat results))"
    using distinct_card [OF keys(1)] keys(2) out by simp
  have sorted: "sorted_wrt (\<lambda>a b. b \<le> a) (map snd out)"
    unfolding out map_loads_snd by (rule ranking_sorted)
  have stable: "\<forall>s. sorted_wrt
                  (\<lambda>a b. first_index (map dumps (concat results)) a
                           < first_index (map dumps (concat results)) b)
                  (map fst (filter (\<lambda>p. snd p = s) ?ranked))"
    by (rule allI) (rule ranking_stable)
  have inverse: "map (\<lambda>(doc, score). (dumps doc, score)) out = ?ranked
             \<and> distinct (map fst out)
             \<and> set (map fst out) = set (concat results)"
    if rt: "\<forall>doc \<in> set (concat results). loads (dumps doc) = doc"
  proof (intro conjI)
    from rt keys(2) have roundtrip: "\<forall>key \<in> set (map fst ?ranked). dumps (loads key) = key"
      by auto
    then show "map (\<lambda>(doc, score). (dumps doc, score)) out = ?ranked"
      unfolding out by (rule map_dumps_loads)
    from roundtrip have "inj_on loads (set (map fst ?ranked))"
      by (metis inj_onI)
    with keys(1) show "distinct (map fst out)"
      unfolding out map_loads_fst by (simp only: distinct_map simp_thms)
    have "set (map fst out) = loads ` dumps ` set (concat results)"
      unfolding out map_loads_fst using keys(2) by (simp only: set_map)
    also have "\<dots> = set (concat results)"
      using rt by (auto simp: image_iff)
    finally show "set (map fst out) = set (concat results)" .
  qed
  show ?thesis
    by (rule exI [of _ ?ranked], intro conjI impI)
       (rule out keys len sorted stable inverse [THEN conjunct1]
             inverse [THEN conjunct2, THEN conjunct1]
             inverse [THEN conjunct2, THEN conjunct2] | assumption)+
qed

theorem rrf_output_is_ranked_permutation_witness:
  "reciprocal_rank_fusion round64 id id [[''A'', ''B''], [''B'', ''A''], [''C'']] 60
     = Inr ([(''A'', 2382231934040787 / 2 ^ 56), (''B'', 2382231934040787 / 2 ^ 56),
            (''C'', 4803839602528529 / 2 ^ 58)] :: (string \<times> rat) list)
   \<and> (\<exists>ranked.
           ([(''A'', 2382231934040787 / 2 ^ 56), (''B'', 2382231934040787 / 2 ^ 56),
            (''C'', 4803839602528529 / 2 ^ 58)] :: (string \<times> rat) list) = map (\<lambda>(key, score). (id key, score)) ranked
         \<and> distinct (map fst ranked)
         \<and> set (map fst ranked) = id ` set (concat [[''A'', ''B''], [''B'', ''A''], [''C'']])
         \<and> length ([(''A'', 2382231934040787 / 2 ^ 56), (''B'', 2382231934040787 / 2 ^ 56),
            (''C'', 4803839602528529 / 2 ^ 58)] :: (string \<times> rat) list) = card (id ` set (concat [[''A'', ''B''], [''B'', ''A''], [''C'']]))
         \<and> sorted_wrt (\<lambda>a b. b \<le> a) (map snd ([(''A'', 2382231934040787 / 2 ^ 56), (''B'', 2382231934040787 / 2 ^ 56),
            (''C'', 4803839602528529 / 2 ^ 58)] :: (string \<times> rat) list))
         \<and> (\<forall>s. sorted_wrt
                  (\<lambda>a b. first_index (map id (concat [[''A'', ''B''], [''B'', ''A''], [''C'']])) a
                           < first_index (map id (concat [[''A'', ''B''], [''B'', ''A''], [''C'']])) b)
                  (map fst (filter (\<lambda>p. snd p = s) ranked)))
         \<and> ((\<forall>doc \<in> set (concat [[''A'', ''B''], [''B'', ''A''], [''C'']]). id (id doc) = doc) \<longrightarrow>
               map (\<lambda>(doc, score). (id doc, score)) ([(''A'', 2382231934040787 / 2 ^ 56), (''B'', 2382231934040787 / 2 ^ 56),
            (''C'', 4803839602528529 / 2 ^ 58)] :: (string \<times> rat) list) = ranked
             \<and> distinct (map fst ([(''A'', 2382231934040787 / 2 ^ 56), (''B'', 2382231934040787 / 2 ^ 56),
            (''C'', 4803839602528529 / 2 ^ 58)] :: (string \<times> rat) list))
             \<and> set (map fst ([(''A'', 2382231934040787 / 2 ^ 56), (''B'', 2382231934040787 / 2 ^ 56),
            (''C'', 4803839602528529 / 2 ^ 58)] :: (string \<times> rat) list)) = set (concat [[''A'', ''B''], [''B'', ''A''], [''C'']])))"
proof -
  have run: "reciprocal_rank_fusion round64 id id [[''A'', ''B''], [''B'', ''A''], [''C'']] 60
     = Inr ([(''A'', 2382231934040787 / 2 ^ 56), (''B'', 2382231934040787 / 2 ^ 56),
            (''C'', 4803839602528529 / 2 ^ 58)] :: (string \<times> rat) list)"
    by (simp add: rrf_eval round64_eval)
  show ?thesis
    by (rule conjI [OF run rrf_output_is_ranked_permutation [OF run]])
qed

section \<open>The scenario of the specification\<close>

text \<open>
  C3. For \<open>[[A, B, C], [B, C, D]]\<close> with pairwise different serialisations and
  \<open>k = 60\<close>, the output is \<open>[B, C, A, D]\<close> with the scores \<open>1/61 + 1/60\<close>,
  \<open>1/62 + 1/61\<close>, \<open>1/60\<close> and \<open>1/62\<close>: as numbers in exact arithmetic, and as the
  floats that these Python expressions denote in binary64.
\<close>

theorem rrf_scenario:
  assumes "distinct [dumps A, dumps B, dumps C, dumps D]"
    and "loads (dumps A) = A" "loads (dumps B) = B" "loads (dumps C) = C" "loads (dumps D) = D"
  shows "reciprocal_rank_fusion (\<lambda>x. x) dumps loads [[A, B, C], [B, C, D]] 60
           = Inr [(B, 1 / 61 + 1 / 60), (C, 1 / 62 + 1 / 61), (A, 1 / 60), (D, 1 / 62)]
       \<and> reciprocal_rank_fusion round64 dumps loads [[A, B, C], [B, C, D]] 60
           = Inr [(B, round64 (round64 (1 / 61) + round64 (1 / 60))),
                  (C, round64 (round64 (1 / 62) + round64 (1 / 61))),
                  (A, round64 (1 / 60)), (D, round64 (1 / 62))]"
proof -
  from assms(1) have ne:
    "dumps A \<noteq> dumps B" "dumps A \<noteq> dumps C" "dumps A \<noteq> dumps D"
    "dumps B \<noteq> dumps C" "dumps B \<noteq> dumps D" "dumps C \<noteq> dumps D"
    "dumps B \<noteq> dumps A" "dumps C \<noteq> dumps A" "dumps D \<noteq> dumps A"
    "dumps C \<noteq> dumps B" "dumps D \<noteq> dumps B" "dumps D \<noteq> dumps C"
    by auto
  have exact: "reciprocal_rank_fusion (\<lambda>x. x) dumps loads [[A, B, C], [B, C, D]] 60
           = Inr [(B, 1 / 61 + 1 / 60), (C, 1 / 62 + 1 / 61), (A, 1 / 60), (D, 1 / 62)]"
    using ne assms(2-) by (simp add: rrf_eval)
  have float: "reciprocal_rank_fusion round64 dumps loads [[A, B, C], [B, C, D]] 60
           = Inr [(B, round64 (round64 (1 / 61) + round64 (1 / 60))),
                  (C, round64 (round64 (1 / 62) + round64 (1 / 61))),
                  (A, round64 (1 / 60)), (D, round64 (1 / 62))]"
    using ne assms(2-) by (simp add: rrf_eval round64_eval)
  from exact float show ?thesis by (rule conjI)
qed

theorem rrf_scenario_witness:
  "distinct [id ''A'', id ''B'', id ''C'', id ''D'']
   \<and> reciprocal_rank_fusion (\<lambda>x. x) id id [[''A'', ''B'', ''C''], [''B'', ''C'', ''D'']] 60
       = Inr [(''B'', 1 / 61 + 1 / 60), (''C'', 1 / 62 + 1 / 61), (''A'', 1 / 60), (''D'', 1 / 62)]
   \<and> reciprocal_rank_fusion round64 id id [[''A'', ''B'', ''C''], [''B'', ''C'', ''D'']] 60
       = Inr [(''B'', 2382231934040787 / 2 ^ 56), (''C'', 146468205755307 / 2 ^ 52),
              (''A'', 4803839602528529 / 2 ^ 58), (''D'', 1162219258676257 / 2 ^ 56)]"
proof -
  have d: "distinct [id ''A'', id ''B'', id ''C'', id ''D'']" by simp
  have "reciprocal_rank_fusion (\<lambda>x. x) id id [[''A'', ''B'', ''C''], [''B'', ''C'', ''D'']] 60
           = Inr [(''B'', 1 / 61 + 1 / 60), (''C'', 1 / 62 + 1 / 61), (''A'', 1 / 60), (''D'', 1 / 62)]
       \<and> reciprocal_rank_fusion round64 id id [[''A'', ''B'', ''C''], [''B'', ''C'', ''D'']] 60
           = Inr [(''B'', round64 (round64 (1 / 61) + round64 (1 / 60))),
                  (''C'', round64 (round64 (1 / 62) + round64 (1 / 61))),
                  (''A'', round64 (1 / 60)), (''D'', round64 (1 / 62))]"
    by (rule rrf_scenario [of id "''A''" "''B''" "''C''" "''D''" id, OF d]) simp_all
  with d show ?thesis
    by (simp add: round64_eval)
qed

section \<open>A smoothing constant that is not positive\<close>





section \<open>A positive smoothing constant\<close>
















section \<open>Determinism\<close>

lemma rank_loop_keys_only:
  "rank_loop fl dumps k ps fs = rank_loop fl (\<lambda>key. key) k (map (\<lambda>(rank, doc). (rank, dumps doc)) ps) fs"
  by (induction ps arbitrary: fs) (auto simp: Let_def split: option.splits)

lemma enumerate_map_snd:
  "map (\<lambda>(rank, doc). (rank, f doc)) (enumerate n docs) = enumerate n (map f docs)"
  by (induction docs arbitrary: n) simp_all

lemma lists_loop_keys_only:
  "lists_loop fl dumps k results fs = lists_loop fl (\<lambda>key. key) k (map (map dumps) results) fs"
proof (induction results arbitrary: fs)
  case Nil
  then show ?case by simp
next
  case (Cons docs results)
  have "rank_loop fl dumps k (enumerate 0 docs) fs
          = rank_loop fl (\<lambda>key. key) k (enumerate 0 (map dumps docs)) fs"
    by (simp only: rank_loop_keys_only [of fl dumps] enumerate_map_snd)
  with Cons show ?case by (simp split: sum.splits)
qed

text \<open>
  C8. The result of the fusion is a function of the serialisations of the input lists and
  of \<open>k\<close> alone: two runs whose inputs serialise to the same lists of keys, item by item,
  return the same documents with the same scores in the same order (or raise the same
  error). Nothing else enters: the dictionary keeps insertion order, the sort is stable,
  and no hash order or object identity is consulted.
\<close>

theorem rrf_deterministic:
  assumes "map (map dumps) results = map (map dumps') results'"
  shows "reciprocal_rank_fusion fl dumps loads results k
           = reciprocal_rank_fusion fl dumps' loads results' k"
proof -
  have "lists_loop fl dumps k results [] = lists_loop fl dumps' k results' []"
    using assms by (simp only: lists_loop_keys_only [of fl dumps] lists_loop_keys_only [of fl dumps'])
  then show ?thesis by (simp only: reciprocal_rank_fusion_def)
qed

theorem rrf_deterministic_witness:
  "map (map id) [[''A'', ''B''], [''B'']] = map (map tl) [[''xA'', ''yB''], [''zB'']]
   \<and> reciprocal_rank_fusion round64 id id [[''A'', ''B''], [''B'']] 60
       = reciprocal_rank_fusion round64 tl id [[''xA'', ''yB''], [''zB'']] 60
   \<and> reciprocal_rank_fusion round64 id id [[''A'', ''B''], [''B'']] 60
       = reciprocal_rank_fusion round64 id id [[''A'', ''B''], [''B'']] 60"
proof -
  have same: "map (map id) [[''A'', ''B''], [''B'']]
      = map (map tl) [[''xA'', ''yB''], [''zB'']]"
    by simp
  have refl: "map (map id) [[''A'', ''B''], [''B'']] = map (map id) [[''A'', ''B''], [''B'']]"
    by simp
  from rrf_deterministic [OF same, of round64 id 60] rrf_deterministic [OF refl, of round64 id 60]
    same
  show ?thesis by (intro conjI)
qed

section \<open>Fusing a list with itself\<close>

lemma insort_key_map_mono:
  assumes "\<forall>x y. f (g x) \<le> f (g y) \<longleftrightarrow> f x \<le> f y"
  shows "insort_key f (g x) (map g ys) = map g (insort_key f x ys)"
  using assms by (induction ys) simp_all

lemma sort_key_map_mono:
  assumes "\<forall>x y. f (g x) \<le> f (g y) \<longleftrightarrow> f x \<le> f y"
  shows "sort_key f (map g xs) = map g (sort_key f xs)"
  by (induction xs) (simp_all add: insort_key_map_mono [OF assms])

lemma first_seen_absorb:
  "set ys \<subseteq> set xs \<Longrightarrow> first_seen (xs @ ys) = first_seen xs"
proof -
  assume "set ys \<subseteq> set xs"
  then have "filter (\<lambda>y. y \<notin> set xs) (first_seen ys) = []"
    by (auto simp: filter_empty_conv)
  then show ?thesis by (simp add: first_seen_append)
qed

lemma first_seen_replicate:
  "first_seen (concat (replicate (Suc n) xs)) = first_seen xs"
proof (induction n)
  case 0
  then show ?case by simp
next
  case (Suc n)
  have "concat (replicate (Suc (Suc n)) xs) = concat (replicate (Suc n) xs) @ xs"
    by (metis concat.simps(2) concat_append replicate_Suc replicate_append_same append_Nil2 concat.simps(1))
  moreover have "set xs \<subseteq> set (concat (replicate (Suc n) xs))"
    by simp
  ultimately show ?case
    using Suc by (simp only: first_seen_absorb)
qed

lemma rrf_score_replicate:
  "rrf_score (\<lambda>x. x) dumps k (replicate n docs) key
     = of_nat n * rrf_score (\<lambda>x. x) dumps k [docs] key"
  by (induction n) (simp_all add: rrf_score_def fsum_exact algebra_simps)

lemma zero_rank_replicate:
  "zero_rank k (replicate (Suc n) docs) = zero_rank k [docs]"
  by (auto simp: zero_rank_def)

lemma ranking_replicate:
  "ranking (\<lambda>x. x) dumps k (replicate (Suc n) docs)
     = map (\<lambda>(key, score). (key, of_nat (Suc n) * score)) (ranking (\<lambda>x. x) dumps k [docs])"
proof -
  let ?keys = "first_seen (map dumps docs)"
  let ?g = "\<lambda>(key, score). (key, of_nat (Suc n) * score :: rat)"
  have keys: "first_seen (map dumps (concat (replicate (Suc n) docs))) = ?keys"
    using first_seen_replicate [of n "map dumps docs"]
    by (simp only: map_concat map_replicate)
  have "(\<lambda>key. (key, rrf_score (\<lambda>x. x) dumps k (replicate (Suc n) docs) key))
          = ?g \<circ> (\<lambda>key. (key, rrf_score (\<lambda>x. x) dumps k [docs] key))"
    by (rule ext) (simp only: rrf_score_replicate comp_def case_prod_conv)
  then have "ranking (\<lambda>x. x) dumps k (replicate (Suc n) docs)
          = sort_key (\<lambda>x. - snd x)
              (map ?g (map (\<lambda>key. (key, rrf_score (\<lambda>x. x) dumps k [docs] key)) ?keys))"
    unfolding ranking_def sorted_reverse_def keys by (simp only: map_map)
  also have "\<dots> = map ?g (sort_key (\<lambda>x. - snd x)
              (map (\<lambda>key. (key, rrf_score (\<lambda>x. x) dumps k [docs] key)) ?keys))"
  proof (rule sort_key_map_mono, intro allI)
    fix x y :: "string \<times> rat"
    have "0 < (of_nat (Suc n) :: rat)" by simp
    then show "(- snd (?g x) \<le> - snd (?g y)) = (- snd x \<le> - snd y)"
      by (cases x, cases y) (simp del: of_nat_Suc)
  qed
  finally show ?thesis
    by (simp add: ranking_def sorted_reverse_def)
qed

lemma first_seen_distinct: "distinct xs \<Longrightarrow> first_seen xs = xs"
  by (induction xs) simp_all

lemma fsum_replicate_mono:
  assumes mono: "\<forall>x y. 0 \<le> x \<and> x \<le> y \<longrightarrow> fl x \<le> fl y" and zero: "0 \<le> fl 0"
  shows "0 \<le> a \<Longrightarrow> a \<le> a' \<Longrightarrow> 0 \<le> c \<Longrightarrow> c \<le> c' \<Longrightarrow>
           fsum fl a (replicate n c) \<le> fsum fl a' (replicate n c')"
proof (induction n arbitrary: a a')
  case 0
  then show ?case by (simp add: fsum_def)
next
  case (Suc n)
  from Suc.prems have s: "0 \<le> a + c" "a + c \<le> a' + c'" by simp_all
  with mono have "fl 0 \<le> fl (a + c)" by blast
  with zero have "0 \<le> fl (a + c)" by simp
  moreover from s mono have "fl (a + c) \<le> fl (a' + c')" by blast
  ultimately have "fsum fl (fl (a + c)) (replicate n c) \<le> fsum fl (fl (a' + c')) (replicate n c')"
    using Suc.prems by (intro Suc.IH)
  then show ?case by (simp add: fsum_def)
qed

lemma rrf_score_replicate_once:
  assumes "distinct (map dumps docs)" "rank < length docs"
  shows "rrf_score fl dumps k (replicate n docs) (dumps (docs ! rank))
           = fsum fl 0 (replicate n (fl (1 / of_int (int rank + k))))"
proof -
  have "\<forall>j < length docs. dumps (docs ! j) = dumps (docs ! rank) \<longrightarrow> j = rank"
    using assms by (auto simp: distinct_conv_nth)
  with assms(2) have "contribs fl dumps k (dumps (docs ! rank)) (enumerate 0 docs)
                        = [fl (1 / of_int (int rank + k))]"
    by (intro contribs_once) simp_all
  then have "concat (map (\<lambda>docs. contribs fl dumps k (dumps (docs ! rank)) (enumerate 0 docs))
                      (replicate n docs))
               = replicate n (fl (1 / of_int (int rank + k)))" for n
    by (induction n) simp_all
  then show ?thesis
    by (simp add: rrf_score_def)
qed

lemma ranking_replicate_distinct:
  assumes mono: "\<forall>x y. 0 \<le> x \<and> x \<le> y \<longrightarrow> fl x \<le> fl y" and zero: "0 \<le> fl 0"
    and k: "0 < k" and d: "distinct (map dumps docs)"
  shows "ranking fl dumps k (replicate (Suc n) docs)
           = map (\<lambda>(rank, doc). (dumps doc,
                    fsum fl 0 (replicate (Suc n) (fl (1 / of_int (int rank + k))))))
               (enumerate 0 docs)"
proof -
  let ?t = "\<lambda>rank. fsum fl 0 (replicate (Suc n) (fl (1 / of_int (int rank + k))))"
  let ?item = "\<lambda>rank. (dumps (docs ! rank), ?t rank)"
  have keys: "first_seen (map dumps (concat (replicate (Suc n) docs))) = map dumps docs"
    using first_seen_replicate [of n "map dumps docs"] first_seen_distinct [OF d]
    by (simp only: map_concat map_replicate)
  have "map (\<lambda>key. (key, rrf_score fl dumps k (replicate (Suc n) docs) key)) (map dumps docs)
          = map (\<lambda>rank. (dumps (docs ! rank),
                   rrf_score fl dumps k (replicate (Suc n) docs) (dumps (docs ! rank))))
              [0..<length docs]"
    by (rule nth_equalityI) simp_all
  also have "\<dots> = map ?item [0..<length docs]"
  proof (rule map_cong [OF refl])
    fix rank
    assume "rank \<in> set [0..<length docs]"
    then have "rank < length docs" by simp
    then show "(dumps (docs ! rank),
                 rrf_score fl dumps k (replicate (Suc n) docs) (dumps (docs ! rank)))
               = ?item rank"
      by (simp only: rrf_score_replicate_once [OF d])
  qed
  finally have fused:
    "map (\<lambda>key. (key, rrf_score fl dumps k (replicate (Suc n) docs) key)) (map dumps docs)
       = map ?item [0..<length docs]" .
  have anti: "?t j \<le> ?t i" if "i < j" for i j
  proof -
    from k that have "(0::rat) \<le> 1 / of_int (int j + k)"
      "(1::rat) / of_int (int j + k) \<le> 1 / of_int (int i + k)"
      by (simp_all add: frac_le)
    with mono have "fl 0 \<le> fl (1 / of_int (int j + k))"
      "fl (1 / of_int (int j + k)) \<le> fl (1 / of_int (int i + k))"
      by blast+
    with zero have "0 \<le> fl (1 / of_int (int j + k))"
      "fl (1 / of_int (int j + k)) \<le> fl (1 / of_int (int i + k))"
      by simp_all
    then show ?thesis
      by (intro fsum_replicate_mono [OF mono zero]) simp_all
  qed
  have "sorted_wrt (\<lambda>i j. - ?t i \<le> - ?t j) [0..<length docs]"
  proof (rule sorted_wrt_mono_rel [OF _ sorted_wrt_upt])
    fix i j :: nat
    assume "i < j"
    from anti [OF this] show "- ?t i \<le> - ?t j" by (simp only: neg_le_iff_le)
  qed
  then have "sorted (map (\<lambda>x. - snd x) (map ?item [0..<length docs]))"
    by (simp add: sorted_map sorted_wrt_map)
  then have "sort_key (\<lambda>x. - snd x) (map ?item [0..<length docs]) = map ?item [0..<length docs]"
    by (rule sort_key_id_if_sorted)
  moreover have "map ?item [0..<length docs]
      = map (\<lambda>(rank, doc). (dumps doc, ?t rank)) (enumerate 0 docs)"
    by (rule nth_equalityI) (simp_all add: nth_enumerate_eq)
  ultimately show ?thesis
    unfolding ranking_def sorted_reverse_def keys fused by simp
qed

lemma rrf_replicate_distinct:
  assumes mono: "\<forall>x y. 0 \<le> x \<and> x \<le> y \<longrightarrow> fl x \<le> fl y" and zero: "0 \<le> fl 0"
    and k: "0 < k" and d: "distinct (map dumps docs)" and n: "0 < n"
  shows "reciprocal_rank_fusion fl dumps loads (replicate n docs) k
           = Inr (map (\<lambda>(rank, doc). (loads (dumps doc),
                         fsum fl 0 (replicate n (fl (1 / of_int (int rank + k))))))
                    (enumerate 0 docs))"
proof -
  from n obtain m where m: "n = Suc m" by (cases n) auto
  let ?t = "\<lambda>rank. fsum fl 0 (replicate (Suc m) (fl (1 / of_int (int rank + k))))"
  from k have "\<not> zero_rank k (replicate (Suc m) docs)"
    by (auto simp: zero_rank_def)
  then have "reciprocal_rank_fusion fl dumps loads (replicate (Suc m) docs) k
      = Inr (map (\<lambda>(key, score). (loads key, score))
               (ranking fl dumps k (replicate (Suc m) docs)))"
    by (simp only: rrf_closed_form if_False)
  also have "\<dots> = Inr (map (\<lambda>(key, score). (loads key, score))
               (map (\<lambda>(rank, doc). (dumps doc, ?t rank)) (enumerate 0 docs)))"
    by (simp only: ranking_replicate_distinct [OF mono zero k d])
  also have "map (\<lambda>(key, score). (loads key, score))
               (map (\<lambda>(rank, doc). (dumps doc, ?t rank)) ps)
             = map (\<lambda>(rank, doc). (loads (dumps doc), ?t rank)) ps" for ps
    by (induction ps) auto
  finally show ?thesis unfolding m .
qed

text \<open>
  C7, as the code has it. In exact arithmetic, fusing \<open>n > 0\<close> copies of a list gives the
  documents of the single list in the same order, each with \<open>n\<close> times its score, and
  raises when fusing the single list raises. In a float arithmetic that is monotone on the
  numbers that are not negative, as \<open>round64\<close> is, with \<open>k > 0\<close> and a list whose
  documents have different keys, fusing \<open>n > 0\<close> copies gives the documents in the order of
  the list, whatever \<open>n\<close> is; the score of each is the float sum of \<open>n\<close> times its
  contribution, which need not be \<open>n\<close> times the score of the single list.
\<close>

theorem rrf_repeated_list:
  assumes "0 < n"
  shows "reciprocal_rank_fusion (\<lambda>x. x) dumps loads (replicate n docs) k =
           (case reciprocal_rank_fusion (\<lambda>x. x) dumps loads [docs] k of
              Inl e \<Rightarrow> Inl e
            | Inr out \<Rightarrow> Inr (map (\<lambda>(doc, score). (doc, of_nat n * score)) out))
       \<and> ((\<forall>x y. 0 \<le> x \<and> x \<le> y \<longrightarrow> fl x \<le> fl y) \<and> 0 \<le> fl 0
            \<and> 0 < k \<and> distinct (map dumps docs) \<longrightarrow>
           reciprocal_rank_fusion fl dumps loads (replicate n docs) k
             = Inr (map (\<lambda>(rank, doc). (loads (dumps doc),
                           fsum fl 0 (replicate n (fl (1 / of_int (int rank + k))))))
                      (enumerate 0 docs)))"
proof (intro conjI impI)
  from assms obtain m where n: "n = Suc m" by (cases n) auto
  have "map (\<lambda>(key, score). (loads key, score))
          (map (\<lambda>(key, score). (key, of_nat (Suc m) * score)) ranked)
        = map (\<lambda>(doc, score). (doc, of_nat (Suc m) * score))
            (map (\<lambda>(key, score). (loads key, score)) ranked)" for ranked :: "(string \<times> rat) list"
    by (induction ranked) auto
  then show "reciprocal_rank_fusion (\<lambda>x. x) dumps loads (replicate n docs) k =
           (case reciprocal_rank_fusion (\<lambda>x. x) dumps loads [docs] k of
              Inl e \<Rightarrow> Inl e
            | Inr out \<Rightarrow> Inr (map (\<lambda>(doc, score). (doc, of_nat n * score)) out))"
    unfolding n rrf_closed_form zero_rank_replicate ranking_replicate by simp
next
  assume h: "(\<forall>x y. 0 \<le> x \<and> x \<le> y \<longrightarrow> fl x \<le> fl y) \<and> 0 \<le> fl 0
            \<and> 0 < k \<and> distinct (map dumps docs)"
  then have "\<forall>x y. 0 \<le> x \<and> x \<le> y \<longrightarrow> fl x \<le> fl y" "0 \<le> fl 0"
    "0 < k" "distinct (map dumps docs)"
    by blast+
  then show "reciprocal_rank_fusion fl dumps loads (replicate n docs) k
             = Inr (map (\<lambda>(rank, doc). (loads (dumps doc),
                           fsum fl 0 (replicate n (fl (1 / of_int (int rank + k))))))
                      (enumerate 0 docs))"
    using assms by (rule rrf_replicate_distinct)
qed

theorem rrf_repeated_list_witness:
  "(0::nat) < 3
   \<and> reciprocal_rank_fusion (\<lambda>x. x) id id [[''A'', ''B'']] 60 = Inr [(''A'', 1 / 60), (''B'', 1 / 61)]
   \<and> reciprocal_rank_fusion (\<lambda>x. x) id id (replicate 3 [''A'', ''B'']) 60
       = Inr [(''A'', 3 * (1 / 60)), (''B'', 3 * (1 / 61))]
   \<and> reciprocal_rank_fusion round64 id id (replicate 3 [''A'', ''B'']) 60
       = Inr [(''A'', fsum round64 0 (replicate 3 (round64 (1 / 60)))),
              (''B'', fsum round64 0 (replicate 3 (round64 (1 / 61))))]"
proof -
  have n: "(0::nat) < 3" by simp
  have one: "reciprocal_rank_fusion (\<lambda>x. x) id id [[''A'', ''B'']] 60
               = Inr [(''A'', 1 / 60), (''B'', 1 / 61)]"
    by (simp add: rrf_eval)
  have fl: "(\<forall>x y. 0 \<le> x \<and> x \<le> y \<longrightarrow> round64 x \<le> round64 y) \<and> 0 \<le> round64 0
            \<and> (0::int) < 60 \<and> distinct (map id [''A'', ''B''])"
    by (simp add: round64_mono round64_nonneg)
  note th = rrf_repeated_list [OF n, of id id "[''A'', ''B'']" 60 round64]
  from th have "reciprocal_rank_fusion (\<lambda>x. x) id id (replicate 3 [''A'', ''B'']) 60
       = Inr [(''A'', 3 * (1 / 60)), (''B'', 3 * (1 / 61))]"
    unfolding one by simp
  moreover from th fl have "reciprocal_rank_fusion round64 id id (replicate 3 [''A'', ''B'']) 60
       = Inr [(''A'', fsum round64 0 (replicate 3 (round64 (1 / 60)))),
              (''B'', fsum round64 0 (replicate 3 (round64 (1 / 61))))]"
    by simp
  ultimately show ?thesis using n one by (intro conjI)
qed

text \<open>
  Ten copies of the list \<open>[A]\<close> with \<open>k = 10\<close> in binary64: the single list gives
  \<open>A\<close> the float \<open>0.1\<close>, ten copies give it \<open>1 - 2\<^sup>-\<^sup>5\<^sup>3\<close>, which Python prints as
  \<^verbatim>\<open>0.9999999999999999\<close>. That is neither ten times the float \<open>0.1\<close> as a number nor
  the float product \<^verbatim>\<open>10 * 0.1\<close>, which is \<open>1\<close>.
\<close>

theorem rrf_repeated_list_counterexample:
  "reciprocal_rank_fusion round64 id id [[''A'']] 10 = Inr [(''A'', 3602879701896397 / 2 ^ 55)]
   \<and> reciprocal_rank_fusion round64 id id
        [[''A''], [''A''], [''A''], [''A''], [''A''], [''A''], [''A''], [''A''], [''A''], [''A'']] 10
       = Inr [(''A'', 9007199254740991 / 2 ^ 53)]
   \<and> (9007199254740991 / 2 ^ 53 :: rat) \<noteq> 10 * (3602879701896397 / 2 ^ 55)
   \<and> (9007199254740991 / 2 ^ 53 :: rat) \<noteq> round64 (10 * (3602879701896397 / 2 ^ 55))"
  by (simp add: rrf_eval round64_eval)

section \<open>The unique union\<close>

lemma find_first_with_key:
  assumes "doc \<in> set docs" and "\<forall>doc \<in> set docs. loads (dumps doc) = doc"
  shows "find (\<lambda>doc'. dumps doc' = dumps doc) docs = Some doc"
proof -
  from assms(1) have "\<exists>doc' \<in> set docs. dumps doc' = dumps doc" by blast
  then obtain doc' where f: "find (\<lambda>doc'. dumps doc' = dumps doc) docs = Some doc'"
    by (cases "find (\<lambda>doc'. dumps doc' = dumps doc) docs") (auto simp: find_None_iff)
  then have "doc' \<in> set docs" "dumps doc' = dumps doc"
    by (auto simp: find_Some_iff)
  with assms have "doc' = doc" by metis
  with f show ?thesis by simp
qed

text \<open>
  C6. Whatever order the set is listed in, the output has one item for each distinct
  serialisation key of the input, so it is as long as there are distinct keys and no
  longer than the input lists together. When \<^verbatim>\<open>loads\<close> inverts \<^verbatim>\<open>dumps\<close> on the input,
  the items are the distinct input documents, each once, and each is the first document of
  the flattened input with its key. The order of the output is that of the set, of which
  nothing is known.
\<close>

theorem get_unique_union_distinct_keys:
  assumes "set_order list_set"
  shows "length (get_unique_union dumps loads list_set documents)
           \<le> sum_list (map length documents)
       \<and> length (get_unique_union dumps loads list_set documents)
           = card (dumps ` set (concat documents))
       \<and> (\<exists>keys. get_unique_union dumps loads list_set documents = map loads keys
               \<and> distinct keys \<and> set keys = dumps ` set (concat documents))
       \<and> ((\<forall>doc \<in> set (concat documents). loads (dumps doc) = doc) \<longrightarrow>
             distinct (get_unique_union dumps loads list_set documents)
           \<and> set (get_unique_union dumps loads list_set documents) = set (concat documents)
           \<and> (\<forall>doc \<in> set (get_unique_union dumps loads list_set documents).
                 find (\<lambda>doc'. dumps doc' = dumps doc) (concat documents) = Some doc))"
proof -
  let ?flat = "map dumps (concat documents)"
  let ?keys = "list_set ?flat"
  have flat: "[dumps doc. sublist \<leftarrow> documents, doc \<leftarrow> sublist] = ?flat"
    by (induction documents) simp_all
  then have out: "get_unique_union dumps loads list_set documents = map loads ?keys"
    by (simp add: get_unique_union_def)
  from assms have keys: "distinct ?keys" "set ?keys = dumps ` set (concat documents)"
    by (simp_all add: set_order_def)
  have len: "length (get_unique_union dumps loads list_set documents)
               = card (dumps ` set (concat documents))"
    using distinct_card [OF keys(1)] keys(2) out by simp
  have "card (dumps ` set (concat documents)) \<le> card (set (concat documents))"
    by (rule card_image_le) simp
  also have "\<dots> \<le> length (concat documents)"
    by (rule card_length)
  also have "\<dots> = sum_list (map length documents)"
    by (simp add: length_concat)
  finally have le: "length (get_unique_union dumps loads list_set documents)
               \<le> sum_list (map length documents)"
    using len by simp
  have ex: "\<exists>keys. get_unique_union dumps loads list_set documents = map loads keys
               \<and> distinct keys \<and> set keys = dumps ` set (concat documents)"
    using out keys by blast
  have inv: "distinct (get_unique_union dumps loads list_set documents)
           \<and> set (get_unique_union dumps loads list_set documents) = set (concat documents)
           \<and> (\<forall>doc \<in> set (get_unique_union dumps loads list_set documents).
                 find (\<lambda>doc'. dumps doc' = dumps doc) (concat documents) = Some doc)"
    if rt: "\<forall>doc \<in> set (concat documents). loads (dumps doc) = doc"
  proof (intro conjI)
    from rt keys(2) have "\<forall>key \<in> set ?keys. dumps (loads key) = key" by auto
    then have "inj_on loads (set ?keys)" by (metis inj_onI)
    with keys(1) show "distinct (get_unique_union dumps loads list_set documents)"
      unfolding out by (simp only: distinct_map simp_thms)
    have "set (get_unique_union dumps loads list_set documents)
            = loads ` dumps ` set (concat documents)"
      unfolding out using keys(2) by (simp only: set_map)
    also have "\<dots> = set (concat documents)"
      using rt by (auto simp: image_iff)
    finally show s: "set (get_unique_union dumps loads list_set documents) = set (concat documents)" .
    show "\<forall>doc \<in> set (get_unique_union dumps loads list_set documents).
            find (\<lambda>doc'. dumps doc' = dumps doc) (concat documents) = Some doc"
      unfolding s using rt by (intro ballI find_first_with_key [where loads = loads]) auto
  qed
  show ?thesis
    by (intro conjI impI)
       (rule le len ex inv [THEN conjunct1] inv [THEN conjunct2, THEN conjunct1]
             inv [THEN conjunct2, THEN conjunct2] | assumption)+
qed

theorem get_unique_union_distinct_keys_witness:
  "set_order remdups
   \<and> get_unique_union id id remdups [[''doc1'', ''doc2''], [''doc2'', ''doc3'']]
       = [''doc1'', ''doc2'', ''doc3'']
   \<and> length (get_unique_union id id remdups [[''doc1'', ''doc2''], [''doc2'', ''doc3'']])
       = card (id ` set (concat [[''doc1'', ''doc2''], [''doc2'', ''doc3'']]))
   \<and> length (get_unique_union id id remdups [[''doc1'', ''doc2''], [''doc2'', ''doc3'']])
       \<le> sum_list (map length [[''doc1'', ''doc2''], [''doc2'', ''doc3'']])
   \<and> distinct (get_unique_union id id remdups [[''doc1'', ''doc2''], [''doc2'', ''doc3'']])
   \<and> set (get_unique_union id id remdups [[''doc1'', ''doc2''], [''doc2'', ''doc3'']])
       = set (concat [[''doc1'', ''doc2''], [''doc2'', ''doc3'']])"
proof -
  have order: "set_order remdups" by (simp add: set_order_def)
  have rt: "\<forall>doc \<in> set (concat [[''doc1'', ''doc2''], [''doc2'', ''doc3'']]). id (id doc) = doc"
    by simp
  have run: "get_unique_union id id remdups [[''doc1'', ''doc2''], [''doc2'', ''doc3'']]
       = [''doc1'', ''doc2'', ''doc3'']"
    by (simp add: get_unique_union_def)
  note th = get_unique_union_distinct_keys [OF order, of id id "[[''doc1'', ''doc2''], [''doc2'', ''doc3'']]"]
  from th have a: "length (get_unique_union id id remdups [[''doc1'', ''doc2''], [''doc2'', ''doc3'']])
       \<le> sum_list (map length [[''doc1'', ''doc2''], [''doc2'', ''doc3'']])"
    by (rule conjunct1)
  from th have b: "length (get_unique_union id id remdups [[''doc1'', ''doc2''], [''doc2'', ''doc3'']])
       = card (id ` set (concat [[''doc1'', ''doc2''], [''doc2'', ''doc3'']]))"
    by (elim conjE)
  from th rt have c: "distinct (get_unique_union id id remdups [[''doc1'', ''doc2''], [''doc2'', ''doc3'']])"
    "set (get_unique_union id id remdups [[''doc1'', ''doc2''], [''doc2'', ''doc3'']])
       = set (concat [[''doc1'', ''doc2''], [''doc2'', ''doc3'']])"
    by blast+
  from order run a b c show ?thesis by (intro conjI)
qed

section \<open>Parsing the query variants\<close>

lemma split_from_cut:
  "sep \<noteq> [] \<and> take (length sep) s = sep \<Longrightarrow>
     split_from sep cur s = cur # split_from sep [] (drop (length sep) s)"
  by (subst split_from.simps) auto

lemma split_from_end:
  "\<not> (sep \<noteq> [] \<and> take (length sep) [] = sep) \<Longrightarrow> split_from sep cur [] = [cur]"
  by (subst split_from.simps) auto

lemma split_from_step:
  "\<not> (sep \<noteq> [] \<and> take (length sep) (c # rest) = sep) \<Longrightarrow>
     split_from sep cur (c # rest) = split_from sep (cur @ [c]) rest"
  by (subst split_from.simps) auto

lemma split_from_Cons: "\<exists>v ws. split_from sep cur s = v # ws"
proof (induction sep cur s rule: split_from.induct)
  case (1 sep cur s)
  show ?case
  proof (cases "sep \<noteq> [] \<and> take (length sep) s = sep")
    case True
    from split_from_cut [OF this] show ?thesis by blast
  next
    case False
    show ?thesis
    proof (cases s)
      case Nil
      with False split_from_end [of sep cur] show ?thesis by blast
    next
      case (Cons c rest)
      with False "1.IH"(2) [OF False Cons] split_from_step [of sep c rest cur] show ?thesis
        by simp
    qed
  qed
qed

lemma join_split_from:
  "join_with sep (split_from sep cur s) = cur @ s"
proof (induction sep cur s rule: split_from.induct)
  case (1 sep cur s)
  show ?case
  proof (cases "sep \<noteq> [] \<and> take (length sep) s = sep")
    case True
    then have s: "sep @ drop (length sep) s = s"
      by (metis append_take_drop_id)
    from split_from_Cons obtain v ws
      where r: "split_from sep [] (drop (length sep) s) = v # ws" by blast
    from "1.IH"(1) [OF True] r have "v @ concat (map (\<lambda>w. sep @ w) ws) = drop (length sep) s"
      by (simp add: join_with_def)
    then have "join_with sep (cur # v # ws) = cur @ sep @ drop (length sep) s"
      by (simp add: join_with_def)
    with r s show ?thesis
      by (simp only: split_from_cut [OF True])
  next
    case False
    show ?thesis
    proof (cases s)
      case Nil
      with False show ?thesis by (simp add: split_from_end join_with_def)
    next
      case (Cons c rest)
      with False "1.IH"(2) [OF False Cons] show ?thesis
        by (simp add: split_from_step)
    qed
  qed
qed

lemma occurs_length: "occurs sep t \<Longrightarrow> length sep \<le> length t"
  by (auto simp: occurs_def)

lemma occurs_short: "length t < length sep \<Longrightarrow> \<not> occurs sep t"
  using occurs_length [of sep t] by auto

lemma occurs_append: "occurs sep t \<Longrightarrow> occurs sep (t @ u)"
proof -
  assume "occurs sep t"
  then obtain ps ss where "t = ps @ sep @ ss" by (auto simp: occurs_def)
  then have "t @ u = ps @ sep @ (ss @ u)" by simp
  then show ?thesis unfolding occurs_def by blast
qed

lemma occurs_snoc:
  assumes "occurs sep (t @ [x])"
  shows "occurs sep t \<or> (\<exists>ps. t @ [x] = ps @ sep)"
proof -
  from assms obtain ps ss where t: "t @ [x] = ps @ sep @ ss" by (auto simp: occurs_def)
  show ?thesis
  proof (cases ss rule: rev_cases)
    case Nil
    with t show ?thesis by simp
  next
    case (snoc ss' y)
    with t have "t @ [x] = (ps @ sep @ ss') @ [y]" by simp
    then have "t = ps @ sep @ ss'" by (simp only: append1_eq_conv)
    then show ?thesis unfolding occurs_def by blast
  qed
qed

text \<open>
  The pieces of a split, when no occurrence of the separator begins in the piece under
  construction: the separator occurs in no piece, and a piece that a cut ends is followed
  by the first occurrence of the separator after its beginning.
\<close>

lemma split_from_pieces:
  "sep \<noteq> [] \<Longrightarrow> \<not> occurs sep (cur @ take (length sep - 1) s) \<Longrightarrow>
     (\<forall>v \<in> set (butlast (split_from sep cur s)). \<not> occurs sep (v @ butlast sep))
   \<and> \<not> occurs sep (last (split_from sep cur s))"
proof (induction sep cur s rule: split_from.induct)
  case (1 sep cur s)
  note sep = \<open>sep \<noteq> []\<close> and inv = \<open>\<not> occurs sep (cur @ take (length sep - 1) s)\<close>
  show ?case
  proof (cases "sep \<noteq> [] \<and> take (length sep) s = sep")
    case True
    let ?rest = "split_from sep [] (drop (length sep) s)"
    from split_from_Cons obtain v ws where r: "?rest = v # ws" by blast
    have "length (take (length sep - 1) (drop (length sep) s)) \<le> length sep - 1"
      by simp
    moreover from sep have "length sep - 1 < length sep" by (cases sep) simp_all
    ultimately have "length (take (length sep - 1) (drop (length sep) s)) < length sep"
      by (rule le_less_trans)
    then have "\<not> occurs sep (take (length sep - 1) (drop (length sep) s))"
      by (rule occurs_short)
    then have "\<not> occurs sep ([] @ take (length sep - 1) (drop (length sep) s))"
      by simp
    from "1.IH"(1) [OF True sep this]
    have ih: "(\<forall>v \<in> set (butlast ?rest). \<not> occurs sep (v @ butlast sep))
                \<and> \<not> occurs sep (last ?rest)" .
    from True have "butlast sep = take (length sep - 1) (take (length sep) s)"
      by (simp add: butlast_conv_take)
    then have "butlast sep = take (length sep - 1) s" by (simp add: min_def)
    with inv have "\<not> occurs sep (cur @ butlast sep)" by simp
    with ih r show ?thesis
      by (simp add: split_from_cut [OF True])
  next
    case False
    show ?thesis
    proof (cases s)
      case Nil
      with False inv show ?thesis by (simp add: split_from_end)
    next
      case (Cons c rest)
      have "\<not> occurs sep ((cur @ [c]) @ take (length sep - 1) rest)"
      proof
        assume occ: "occurs sep ((cur @ [c]) @ take (length sep - 1) rest)"
        from sep obtain n where n: "length sep = Suc n" by (cases sep) auto
        show False
        proof (cases "n \<le> length rest")
          case True
          then obtain x where x: "take (Suc n) s = take n s @ [x]"
            using Cons by (metis Suc_le_lessD length_Cons less_Suc_eq_le not_less take_Suc_conv_app_nth)
          have e: "(cur @ [c]) @ take n rest = (cur @ take n s) @ [x]"
            using x Cons by simp
          from occ occurs_snoc [of sep "cur @ take n s" x]
          have "occurs sep (cur @ take n s) \<or> (\<exists>ps. (cur @ take n s) @ [x] = ps @ sep)"
            by (simp only: n e diff_Suc_1)
          with inv n obtain ps where ps: "(cur @ take n s) @ [x] = ps @ sep"
            by auto
          then have "cur @ take (Suc n) s = ps @ sep" using x by simp
          moreover from True Cons have "length (take (Suc n) s) = Suc n" by simp
          ultimately have "take (Suc n) s = sep"
            using n by (metis append_eq_append_conv)
          with False sep n show False by simp
        next
          case short: False
          then have "take n rest = rest" and "take n s = s" using Cons by simp_all
          then have "(cur @ [c]) @ take n rest = cur @ take n s"
            using Cons by simp
          with occ inv n show False by simp
        qed
      qed
      from "1.IH"(2) [OF False Cons sep this] False Cons show ?thesis
        by (simp add: split_from_step)
    qed
  qed
qed

text \<open>
  C9, as the code has it. Whatever text the model answers, parsing it raises nothing and
  never returns an empty list: the text is cut at every blank line, leftmost first, and the
  pieces, of which there is at least one, are returned as they are, also when a piece is
  empty or blank. Joining the pieces with blank lines gives the text back, so nothing is
  dropped; no piece contains a blank line, and a piece that a cut ends does not contain
  one either when the first newline of the cut is added to it, so every cut is at the first
  blank line after the beginning of its piece.
\<close>

theorem chain_generate_queries_never_fails:
  "\<exists>variants. chain_generate_queries llm_text question = Inr variants
      \<and> variants \<noteq> []
      \<and> join_with [newline, newline] variants = llm_text question
      \<and> (\<forall>v \<in> set variants. \<not> occurs [newline, newline] v)
      \<and> (\<forall>v \<in> set (butlast variants). \<not> occurs [newline, newline] (v @ [newline]))"
proof -
  let ?sep = "[newline, newline]"
  let ?variants = "split_from ?sep [] (llm_text question)"
  have run: "chain_generate_queries llm_text question = Inr ?variants"
    by (simp add: chain_generate_queries_def str_split_def)
  from split_from_Cons [of ?sep "[]" "llm_text question"]
  have ne: "?variants \<noteq> []" by auto
  have joined: "join_with ?sep ?variants = llm_text question"
    using join_split_from [of ?sep "[]" "llm_text question"] by simp
  have "length (take (length ?sep - 1) (llm_text question)) < length ?sep"
    by (simp add: min_def)
  then have "\<not> occurs ?sep (take (length ?sep - 1) (llm_text question))"
    by (rule occurs_short)
  then have "\<not> occurs ?sep ([] @ take (length ?sep - 1) (llm_text question))"
    by simp
  from split_from_pieces [OF _ this]
  have pieces: "(\<forall>v \<in> set (butlast ?variants). \<not> occurs ?sep (v @ butlast ?sep))
                  \<and> \<not> occurs ?sep (last ?variants)"
    by simp
  then have cut: "\<forall>v \<in> set (butlast ?variants). \<not> occurs ?sep (v @ [newline])"
    by simp
  have none: "\<forall>v \<in> set ?variants. \<not> occurs ?sep v"
  proof
    fix v assume "v \<in> set ?variants"
    with ne have "v \<in> set (butlast ?variants) \<or> v = last ?variants"
      by (metis append_butlast_last_id in_set_conv_decomp_first insert_iff list.set(2) set_append Un_iff)
    with pieces cut occurs_append [of ?sep v "[newline]"] show "\<not> occurs ?sep v"
      by blast
  qed
  from run ne joined none cut show ?thesis by blast
qed

lemmas split_eval = chain_generate_queries_def str_split_def split_from.simps newline_def

theorem chain_generate_queries_never_fails_witness:
  "chain_generate_queries
       (\<lambda>q. [CHR ''a'', CHR 0x0A, CHR 0x0A, CHR 0x0A, CHR ''b'', CHR 0x0A, CHR 0x0A]) ''q''
     = Inr [''a'', [CHR 0x0A, CHR ''b''], '''']
   \<and> (\<exists>variants. chain_generate_queries
          (\<lambda>q. [CHR ''a'', CHR 0x0A, CHR 0x0A, CHR 0x0A, CHR ''b'', CHR 0x0A, CHR 0x0A]) ''q''
            = Inr variants
        \<and> variants \<noteq> []
        \<and> join_with [newline, newline] variants
            = [CHR ''a'', CHR 0x0A, CHR 0x0A, CHR 0x0A, CHR ''b'', CHR 0x0A, CHR 0x0A]
        \<and> (\<forall>v \<in> set variants. \<not> occurs [newline, newline] v)
        \<and> (\<forall>v \<in> set (butlast variants). \<not> occurs [newline, newline] (v @ [newline])))"
proof -
  have run: "chain_generate_queries
       (\<lambda>q. [CHR ''a'', CHR 0x0A, CHR 0x0A, CHR 0x0A, CHR ''b'', CHR 0x0A, CHR 0x0A]) ''q''
     = Inr [''a'', [CHR 0x0A, CHR ''b''], '''']"
    by (simp add: split_eval)
  show ?thesis
    by (rule conjI [OF run chain_generate_queries_never_fails])
qed

text \<open>
  A model that answers with the empty text: the chain returns the one variant \<open>''''\<close>,
  which is not usable, and raises nothing.
\<close>

theorem chain_generate_queries_counterexample:
  "chain_generate_queries (\<lambda>q. '''') ''q'' = Inr ['''']
   \<and> filter usable_variant [''''] = []"
  by (simp add: split_eval usable_variant_def)

end
